theory Spec2Isabelle
  imports Main
begin

section \<open>Data model of the game arena\<close>

text \<open>
  The board of \<open>game-arena.js\<close> is the live collection \<open>#elemTiles\<close> of tile objects, in
  document order. A tile object is known by its identity (a reference); its properties
  live in a store that maps every reference to the properties of the object. Indices are
  JavaScript numbers, modelled as \<open>int\<close>, so that \<open>indexOf\<close> can answer \<open>-1\<close>.
\<close>

type_synonym ref = nat

text \<open>
  Modelled from the spec: \<open>game-tile.js\<close> (class \<open>GameTile\<close>) is not part of the sources.
  The spec gives a tile the value \<open>{type, hidden}\<close>; the setters for the picked and
  target styling are presentation only and change neither field.
\<close>

record GameTile =
  tileType :: nat
  isHidden :: bool

datatype error = DeveloperError | TypeError

datatype direction = Left | Up | Right | Down

record GameArena =
  rows :: int
  cols :: int
  elemTiles :: "ref list"
  tileStore :: "ref \<Rightarrow> GameTile"
  elemPickedTile :: "ref option"
  elemTargetTile :: "ref option"
  pendingBadSwapTimeouts :: nat

subsection \<open>The live collection: \<open>indexOf\<close>, \<open>item\<close>\<close>

fun firstIndex :: "'a list \<Rightarrow> 'a \<Rightarrow> nat" where
  "firstIndex [] t = 0"
| "firstIndex (x # xs) t = (if x = t then 0 else Suc (firstIndex xs t))"

text \<open>\<open>Array.prototype.indexOf\<close>: the first index holding the object, \<open>-1\<close> when absent.\<close>

definition indexOf :: "ref list \<Rightarrow> ref \<Rightarrow> int" where
  "indexOf xs t = (if t \<in> set xs then int (firstIndex xs t) else - 1)"

text \<open>\<open>HTMLCollection.item(i)\<close> and \<open>collection[i]\<close>: no object outside the range.\<close>

definition item :: "ref list \<Rightarrow> int \<Rightarrow> ref option" where
  "item xs i = (if 0 \<le> i \<and> i < int (length xs) then Some (xs ! nat i) else None)"

subsection \<open>BoardWalker\<close>

text \<open>
  Modelled from the spec: \<open>board-walker.js\<close> (class \<open>BoardWalker\<close>) is not part of the
  sources. Section 4.1 of the spec: the left edge is \<open>index % cols == 0\<close>, the right edge
  \<open>(index + 1) % cols == 0\<close>, up and down are checks against row \<open>0\<close> and row
  \<open>rows - 1\<close>; the four moves are \<open>-1\<close>, \<open>+1\<close>, \<open>-cols\<close>, \<open>+cols\<close>. For
  \<open>cols\<close> other than 0 the remainder of JavaScript and \<open>mod\<close> are 0 for the same
  indices, the multiples of \<open>cols\<close>.
\<close>

definition detectEdgeLeft :: "GameArena \<Rightarrow> int \<Rightarrow> bool" where
  "detectEdgeLeft a idx = (idx mod cols a = 0)"

definition detectEdgeRight :: "GameArena \<Rightarrow> int \<Rightarrow> bool" where
  "detectEdgeRight a idx = ((idx + 1) mod cols a = 0)"

definition detectEdgeUp :: "GameArena \<Rightarrow> int \<Rightarrow> bool" where
  "detectEdgeUp a idx = (idx < cols a)"

definition detectEdgeDown :: "GameArena \<Rightarrow> int \<Rightarrow> bool" where
  "detectEdgeDown a idx = ((rows a - 1) * cols a \<le> idx)"

definition getIndexToLeft :: "GameArena \<Rightarrow> int \<Rightarrow> int" where
  "getIndexToLeft a idx = idx - 1"

definition getIndexToRight :: "GameArena \<Rightarrow> int \<Rightarrow> int" where
  "getIndexToRight a idx = idx + 1"

definition getIndexToUp :: "GameArena \<Rightarrow> int \<Rightarrow> int" where
  "getIndexToUp a idx = idx - cols a"

definition getIndexToDown :: "GameArena \<Rightarrow> int \<Rightarrow> int" where
  "getIndexToDown a idx = idx + cols a"

text \<open>\<open>#setupMatchDirectionalActions\<close>: the edge test and the move of each direction.\<close>

fun matchSeekHelpersMap :: "GameArena \<Rightarrow> direction \<Rightarrow> (int \<Rightarrow> bool) \<times> (int \<Rightarrow> int)" where
  "matchSeekHelpersMap a Left = (detectEdgeLeft a, getIndexToLeft a)"
| "matchSeekHelpersMap a Up = (detectEdgeUp a, getIndexToUp a)"
| "matchSeekHelpersMap a Right = (detectEdgeRight a, getIndexToRight a)"
| "matchSeekHelpersMap a Down = (detectEdgeDown a, getIndexToDown a)"

section \<open>Match detection\<close>

text \<open>\<open>#isInMatch\<close>\<close>

definition isInMatch :: "GameTile \<Rightarrow> nat \<Rightarrow> bool" where
  "isInMatch testTile pickedTileType = (\<not> isHidden testTile \<and> tileType testTile = pickedTileType)"

text \<open>
  \<open>#seekInDirection\<close>, a generator drained by a spread. The loop tests the edge at the
  current index, moves, reads the tile there and either yields it or returns. Reading
  outside the collection gives \<open>undefined\<close>, whose destructuring throws. The loop may
  run forever (with \<open>cols = 0\<close> a vertical move stays in place), so the result is an
  option: \<open>None\<close> is a walk that never returns.
\<close>

partial_function (option) seekInDirection ::
  "GameArena \<Rightarrow> direction \<Rightarrow> nat \<Rightarrow> int \<Rightarrow> (error + ref list) option" where
  "seekInDirection a dir pickedTileType seekIndex =
     (if fst (matchSeekHelpersMap a dir) seekIndex then Some (Inr [])
      else
        (case item (elemTiles a) (snd (matchSeekHelpersMap a dir) seekIndex) of
           None \<Rightarrow> Some (Inl TypeError)
         | Some testTile \<Rightarrow>
             if isInMatch (tileStore a testTile) pickedTileType
             then Option.bind
                    (seekInDirection a dir pickedTileType (snd (matchSeekHelpersMap a dir) seekIndex))
                    (\<lambda>r. Some (case r of Inl e \<Rightarrow> Inl e | Inr ts \<Rightarrow> Inr (testTile # ts)))
             else Some (Inr [])))"

declare seekInDirection.simps [code]

text \<open>
  \<open>#obtainDirectionalMatchInfo\<close>: the four walks, in the order left, up, right, down,
  from the index of the analysed tile and with its type. The first walk that throws or
  never returns decides the outcome.
\<close>

record DirectionalMatchInfo =
  left :: "ref list"
  up :: "ref list"
  right :: "ref list"
  down :: "ref list"

definition obtainDirectionalMatchInfo ::
  "GameArena \<Rightarrow> ref \<Rightarrow> (error + DirectionalMatchInfo) option" where
  "obtainDirectionalMatchInfo a tileToAnalyze =
     (let pickedTileType = tileType (tileStore a tileToAnalyze);
          idxSeek = indexOf (elemTiles a) tileToAnalyze
      in case seekInDirection a Left pickedTileType idxSeek of
           None \<Rightarrow> None
         | Some (Inl e) \<Rightarrow> Some (Inl e)
         | Some (Inr l) \<Rightarrow>
        (case seekInDirection a Up pickedTileType idxSeek of
           None \<Rightarrow> None
         | Some (Inl e) \<Rightarrow> Some (Inl e)
         | Some (Inr u) \<Rightarrow>
        (case seekInDirection a Right pickedTileType idxSeek of
           None \<Rightarrow> None
         | Some (Inl e) \<Rightarrow> Some (Inl e)
         | Some (Inr r) \<Rightarrow>
        (case seekInDirection a Down pickedTileType idxSeek of
           None \<Rightarrow> None
         | Some (Inl e) \<Rightarrow> Some (Inl e)
         | Some (Inr d) \<Rightarrow>
             Some (Inr \<lparr>left = l, up = u, right = r, down = d\<rparr>)))))"

text \<open>
  Modelled from the spec: \<open>match-info.js\<close> (class \<open>MatchInfo\<close>) is not part of the
  sources. The spec makes it two optional sequences, \<open>alongX\<close> and \<open>alongY\<close>; the
  constructor keeps the two arrays it is given.
\<close>

record MatchInfo =
  alongX :: "ref list option"
  alongY :: "ref list option"

text \<open>
  \<open>#detectMatchXY\<close>: an axis is an array as soon as one of its two walks found a tile;
  the result is a \<open>MatchInfo\<close> when one of the two axes has three tiles or more,
  \<open>null\<close> otherwise.
\<close>

definition detectMatchXY :: "GameArena \<Rightarrow> ref \<Rightarrow> (error + MatchInfo option) option" where
  "detectMatchXY a tileToAnalyze =
     (case obtainDirectionalMatchInfo a tileToAnalyze of
        None \<Rightarrow> None
      | Some (Inl e) \<Rightarrow> Some (Inl e)
      | Some (Inr mInfo) \<Rightarrow>
          (let matchX = (if 1 \<le> length (left mInfo) \<or> 1 \<le> length (right mInfo)
                         then Some (left mInfo @ [tileToAnalyze] @ right mInfo) else None);
               matchY = (if 1 \<le> length (up mInfo) \<or> 1 \<le> length (down mInfo)
                         then Some (up mInfo @ [tileToAnalyze] @ down mInfo) else None)
           in Some (Inr
                (if (case matchX of None \<Rightarrow> False | Some xs \<Rightarrow> 3 \<le> length xs)
                    \<or> (case matchY of None \<Rightarrow> False | Some ys \<Rightarrow> 3 \<le> length ys)
                 then Some \<lparr>alongX = matchX, alongY = matchY\<rparr>
                 else None))))"

text \<open>
  Modelled from the spec: \<open>combo-match-info.js\<close> (class \<open>ComboMatchInfo\<close>) is not part
  of the sources. Section 4.3 of the spec: the union of the positions of every axis that
  is not \<open>null\<close> in every \<open>MatchInfo\<close> that is not \<open>null\<close>, without duplicates, in
  ascending order of the grid index.
\<close>

record ComboMatchInfo =
  domSortedTiles :: "ref list"

definition axisTiles :: "ref list option \<Rightarrow> ref list" where
  "axisTiles ax = (case ax of None \<Rightarrow> [] | Some ts \<Rightarrow> ts)"

definition matchTiles :: "MatchInfo option \<Rightarrow> ref list" where
  "matchTiles m = (case m of None \<Rightarrow> [] | Some mi \<Rightarrow> axisTiles (alongX mi) @ axisTiles (alongY mi))"

definition newComboMatchInfo ::
  "GameArena \<Rightarrow> MatchInfo option \<Rightarrow> MatchInfo option \<Rightarrow> ComboMatchInfo" where
  "newComboMatchInfo a matchInfo1 matchInfo2 =
     \<lparr>domSortedTiles =
        sort_key (indexOf (elemTiles a)) (remdups (matchTiles matchInfo1 @ matchTiles matchInfo2))\<rparr>"

text \<open>
  \<open>#calculateMatchByUserSelection\<close>: the analysis around the picked and around the
  target tile. Analysing \<open>null\<close> throws at the read of its type.
\<close>

definition detectMatchOfSelected ::
  "GameArena \<Rightarrow> ref option \<Rightarrow> (error + MatchInfo option) option" where
  "detectMatchOfSelected a sel =
     (case sel of None \<Rightarrow> Some (Inl TypeError) | Some t \<Rightarrow> detectMatchXY a t)"

definition calculateMatchByUserSelection ::
  "GameArena \<Rightarrow> (error + ComboMatchInfo option) option" where
  "calculateMatchByUserSelection a =
     (case detectMatchOfSelected a (elemPickedTile a) of
        None \<Rightarrow> None
      | Some (Inl e) \<Rightarrow> Some (Inl e)
      | Some (Inr matchInfo1) \<Rightarrow>
          (case detectMatchOfSelected a (elemTargetTile a) of
             None \<Rightarrow> None
           | Some (Inl e) \<Rightarrow> Some (Inl e)
           | Some (Inr matchInfo2) \<Rightarrow>
               Some (Inr (if matchInfo1 \<noteq> None \<or> matchInfo2 \<noteq> None
                          then Some (newComboMatchInfo a matchInfo1 matchInfo2)
                          else None))))"

section \<open>Swapping two tiles in the document\<close>

text \<open>
  \<open>ref.after(node)\<close> and \<open>ref.before(node)\<close> of the DOM: the node leaves its place in
  the parent and is inserted next to the reference node. With a reference node that is
  not a child of the canvas nothing happens, and a node put next to itself stays where
  it is.
\<close>

fun insertAfter :: "ref \<Rightarrow> ref \<Rightarrow> ref list \<Rightarrow> ref list" where
  "insertAfter r n [] = []"
| "insertAfter r n (x # xs) = (if x = r then x # n # xs else x # insertAfter r n xs)"

fun insertBefore :: "ref \<Rightarrow> ref \<Rightarrow> ref list \<Rightarrow> ref list" where
  "insertBefore r n [] = []"
| "insertBefore r n (x # xs) = (if x = r then n # x # xs else x # insertBefore r n xs)"

definition nodeAfter :: "ref \<Rightarrow> ref \<Rightarrow> ref list \<Rightarrow> ref list" where
  "nodeAfter r n xs = (if r \<notin> set xs \<or> r = n then xs else insertAfter r n (removeAll n xs))"

definition nodeBefore :: "ref \<Rightarrow> ref \<Rightarrow> ref list \<Rightarrow> ref list" where
  "nodeBefore r n xs = (if r \<notin> set xs \<or> r = n then xs else insertBefore r n (removeAll n xs))"

text \<open>
  Outcome of an operation that changes the arena: the new arena, or the exception thrown
  together with the arena as it was changed up to the throw.
\<close>

type_synonym outcome = "(error \<times> GameArena) + GameArena"

text \<open>
  \<open>#swapTiles\<close>. \<open>tile2\<close> precedes \<open>tile1\<close> in the document when its index is the
  smaller one. Calling \<open>after\<close> or \<open>before\<close> on the \<open>null\<close> that \<open>item\<close> answers
  outside the collection throws.
\<close>

definition swapTiles :: "ref \<Rightarrow> ref \<Rightarrow> GameArena \<Rightarrow> outcome" where
  "swapTiles tile1 tile2 a =
     (let idxInitialTile1 = indexOf (elemTiles a) tile1
      in if indexOf (elemTiles a) tile2 < idxInitialTile1
         then (let a1 = a\<lparr>elemTiles := nodeAfter tile2 tile1 (elemTiles a)\<rparr>
               in case item (elemTiles a1) idxInitialTile1 of
                    None \<Rightarrow> Inl (TypeError, a1)
                  | Some r \<Rightarrow> Inr (a1\<lparr>elemTiles := nodeAfter r tile2 (elemTiles a1)\<rparr>))
         else (let a1 = a\<lparr>elemTiles := nodeBefore tile2 tile1 (elemTiles a)\<rparr>
               in case item (elemTiles a1) idxInitialTile1 of
                    None \<Rightarrow> Inl (TypeError, a1)
                  | Some r \<Rightarrow> Inr (a1\<lparr>elemTiles := nodeBefore r tile2 (elemTiles a1)\<rparr>)))"

text \<open>\<open>#swapUserSelectedTiles\<close>: throws when one of the two selected tiles is not set.\<close>

definition swapUserSelectedTiles :: "GameArena \<Rightarrow> outcome" where
  "swapUserSelectedTiles a =
     (case (elemPickedTile a, elemTargetTile a) of
        (Some p, Some t) \<Rightarrow> swapTiles p t a
      | _ \<Rightarrow> Inl (DeveloperError, a))"

section \<open>The selection of the user\<close>

text \<open>\<open>#resetUserSelection\<close> and \<open>#resetUserSelectionWithNewPicked\<close>\<close>

definition resetUserSelection :: "GameArena \<Rightarrow> GameArena" where
  "resetUserSelection a = a\<lparr>elemPickedTile := None, elemTargetTile := None\<rparr>"

definition resetUserSelectionWithNewPicked :: "ref \<Rightarrow> GameArena \<Rightarrow> GameArena" where
  "resetUserSelectionWithNewPicked pickedTile a =
     (resetUserSelection a)\<lparr>elemPickedTile := Some pickedTile\<rparr>"

text \<open>
  \<open>#isSecondTileOnSide\<close>: a switch on the difference of the two indices, with the cases
  in the order of the source; no case means \<open>undefined\<close>. The index of \<open>null\<close> is \<open>-1\<close>.
\<close>

definition isSecondTileOnSide :: "GameArena \<Rightarrow> ref \<Rightarrow> direction option" where
  "isSecondTileOnSide a target =
     (let x = indexOf (elemTiles a) target;
          y = (case elemPickedTile a of None \<Rightarrow> - 1 | Some p \<Rightarrow> indexOf (elemTiles a) p)
      in if x - y = - 1 then Some Left
         else if x - y = - cols a then Some Up
         else if x - y = cols a then Some Down
         else if x - y = 1 then Some Right
         else None)"

text \<open>
  \<open>#manageAndValidateSelection\<close>: the five tests in the order of the source. The local
  \<open>x\<close> is assigned inside the third and the fifth test, where the short-circuit operators
  reach the call; \<open>x3\<close> and \<open>x5\<close> are its values after each of them.
\<close>

definition manageAndValidateSelection :: "ref \<Rightarrow> GameArena \<Rightarrow> direction option \<times> GameArena" where
  "manageAndValidateSelection clickedTile a =
     (if elemPickedTile a = Some clickedTile then (None, resetUserSelection a)
      else if (case elemPickedTile a of
                 None \<Rightarrow> False
               | Some p \<Rightarrow> tileType (tileStore a p) = tileType (tileStore a clickedTile))
      then (None, resetUserSelectionWithNewPicked clickedTile a)
      else
        (let x3 = (if elemPickedTile a \<noteq> None \<and> elemTargetTile a = None
                   then isSecondTileOnSide a clickedTile else None)
         in if elemPickedTile a \<noteq> None \<and> elemTargetTile a = None \<and> x3 \<noteq> None
            then (x3, a\<lparr>elemTargetTile := Some clickedTile\<rparr>)
            else if elemPickedTile a = None
            then (None, a\<lparr>elemPickedTile := Some clickedTile\<rparr>)
            else
              (let x5 = (if elemPickedTile a \<noteq> None \<and> elemTargetTile a = None
                         then isSecondTileOnSide a clickedTile else x3)
               in if elemPickedTile a \<noteq> None \<and> (elemTargetTile a \<noteq> None \<or> x5 = None)
                  then (x5, resetUserSelectionWithNewPicked clickedTile a)
                  else (None, a))))"

section \<open>Clearing a match and bubbling it to the top edge\<close>

text \<open>\<open>#hideMatch\<close>: every tile of the combo is set hidden.\<close>

definition setHidden :: "ref \<Rightarrow> GameArena \<Rightarrow> GameArena" where
  "setHidden t a = a\<lparr>tileStore := (tileStore a)(t := (tileStore a t)\<lparr>isHidden := True\<rparr>)\<rparr>"

definition hideMatch :: "ComboMatchInfo \<Rightarrow> GameArena \<Rightarrow> GameArena" where
  "hideMatch matchInfo a = fold setHidden (domSortedTiles matchInfo) a"

text \<open>
  \<open>#tryGetFallingTile\<close>: \<open>null\<close> at the top edge and under a hidden tile, the tile above
  otherwise.
\<close>

definition tryGetFallingTile :: "GameArena \<Rightarrow> int \<Rightarrow> error + ref option" where
  "tryGetFallingTile a indexMatchedTile =
     (if detectEdgeUp a indexMatchedTile then Inr None
      else
        (case item (elemTiles a) (getIndexToUp a indexMatchedTile) of
           None \<Rightarrow> Inl TypeError
         | Some tile \<Rightarrow> Inr (if isHidden (tileStore a tile) then None else Some tile)))"

text \<open>
  The callback of \<open>fixtureRaw.forEach\<close> in \<open>#bubbleMatchToTopEdge\<close>, on the arena and the
  working set (a \<open>Set\<close>, kept as the list of its members in insertion order).
\<close>

definition bubbleTile ::
  "ref \<Rightarrow> GameArena \<times> ref list \<Rightarrow> (error \<times> GameArena) + (GameArena \<times> ref list)" where
  "bubbleTile tileBubbling st =
     (case st of (a, fixtureRaw) \<Rightarrow>
        (case tryGetFallingTile a (indexOf (elemTiles a) tileBubbling) of
           Inl e \<Rightarrow> Inl (e, a)
         | Inr None \<Rightarrow> Inr (a, removeAll tileBubbling fixtureRaw)
         | Inr (Some tileFalling) \<Rightarrow>
             (case swapTiles tileBubbling tileFalling a of
                Inl ea \<Rightarrow> Inl ea
              | Inr a' \<Rightarrow> Inr (a', fixtureRaw))))"

text \<open>
  One \<open>forEach\<close> over the working set. The callback deletes no member but the one it is
  called with and adds none, so the members visited are those of the set when the pass
  starts.
\<close>

fun forEachBubbling ::
  "ref list \<Rightarrow> GameArena \<times> ref list \<Rightarrow> (error \<times> GameArena) + (GameArena \<times> ref list)" where
  "forEachBubbling [] st = Inr st"
| "forEachBubbling (t # ts) st =
     (case bubbleTile t st of Inl ea \<Rightarrow> Inl ea | Inr st' \<Rightarrow> forEachBubbling ts st')"

text \<open>The \<open>while (fixtureRaw.size)\<close> loop; \<open>None\<close> is a loop that never ends.\<close>

partial_function (option) bubbleLoop :: "GameArena \<Rightarrow> ref list \<Rightarrow> outcome option" where
  "bubbleLoop a fixtureRaw =
     (if fixtureRaw = [] then Some (Inr a)
      else
        (case forEachBubbling fixtureRaw (a, fixtureRaw) of
           Inl ea \<Rightarrow> Some (Inl ea)
         | Inr st \<Rightarrow> bubbleLoop (fst st) (snd st)))"

declare bubbleLoop.simps [code]

text \<open>\<open>new Set(array)\<close>: the members in the order of their first occurrence.\<close>

definition newSet :: "ref list \<Rightarrow> ref list" where
  "newSet xs = rev (remdups (rev xs))"

definition bubbleMatchToTopEdge :: "ComboMatchInfo \<Rightarrow> GameArena \<Rightarrow> outcome option" where
  "bubbleMatchToTopEdge matchFixture a = bubbleLoop a (newSet (domSortedTiles matchFixture))"

text \<open>\<open>#handleUserSuccessSelection\<close>\<close>

definition handleUserSuccessSelection :: "ComboMatchInfo \<Rightarrow> GameArena \<Rightarrow> outcome option" where
  "handleUserSuccessSelection matchInfo a =
     bubbleMatchToTopEdge matchInfo (hideMatch matchInfo (resetUserSelection a))"

section \<open>The two callbacks: click and bad-swap timeout\<close>

text \<open>
  \<open>#handleUserBadSelection\<close> schedules the revert with \<open>setTimeout\<close>. The callback
  keeps nothing but \<open>this\<close>, so the scheduled callbacks are all the same and the arena
  only counts them.
\<close>

definition handleUserBadSelection :: "GameArena \<Rightarrow> GameArena" where
  "handleUserBadSelection a = a\<lparr>pendingBadSwapTimeouts := Suc (pendingBadSwapTimeouts a)\<rparr>"

text \<open>The scheduled callback: swap the selected tiles back, then reset the selection.\<close>

definition badSwapTimeoutCallback :: "GameArena \<Rightarrow> outcome" where
  "badSwapTimeoutCallback a =
     (case swapUserSelectedTiles a of
        Inl ea \<Rightarrow> Inl ea
      | Inr a' \<Rightarrow> Inr (resetUserSelection a'))"

text \<open>\<open>#tileClickHandler\<close>\<close>

definition tileClickHandler :: "ref \<Rightarrow> GameArena \<Rightarrow> outcome option" where
  "tileClickHandler clickedTile a =
     (case manageAndValidateSelection clickedTile a of
        (None, a1) \<Rightarrow> Some (Inr a1)
      | (Some intendedSwapDirection, a1) \<Rightarrow>
          (case swapUserSelectedTiles a1 of
             Inl ea \<Rightarrow> Some (Inl ea)
           | Inr a2 \<Rightarrow>
               (case calculateMatchByUserSelection a2 of
                  None \<Rightarrow> None
                | Some (Inl e) \<Rightarrow> Some (Inl (e, a2))
                | Some (Inr (Some matchFixture)) \<Rightarrow> handleUserSuccessSelection matchFixture a2
                | Some (Inr None) \<Rightarrow> Some (Inr (handleUserBadSelection a2)))))"

text \<open>
  The events the arena reacts to, one at a time: a click on a tile, and the expiry of a
  scheduled bad-swap timeout (nothing happens when none is scheduled). An exception that
  a callback throws is not caught; the arena stays as it was at the throw and the next
  event finds it so.
\<close>

datatype event = Click ref | BadSwapTimeout

fun dispatch :: "event \<Rightarrow> GameArena \<Rightarrow> outcome option" where
  "dispatch (Click t) a = tileClickHandler t a"
| "dispatch BadSwapTimeout a =
     (if pendingBadSwapTimeouts a = 0 then Some (Inr a)
      else Some (badSwapTimeoutCallback
                   (a\<lparr>pendingBadSwapTimeouts := pendingBadSwapTimeouts a - 1\<rparr>)))"

definition arenaAfter :: "outcome \<Rightarrow> GameArena" where
  "arenaAfter r = (case r of Inl ea \<Rightarrow> snd ea | Inr a \<Rightarrow> a)"

fun runEvents :: "event list \<Rightarrow> GameArena \<Rightarrow> GameArena option" where
  "runEvents [] a = Some a"
| "runEvents (e # es) a =
     (case dispatch e a of None \<Rightarrow> None | Some r \<Rightarrow> runEvents es (arenaAfter r))"

section \<open>Well-formed arenas and the vocabulary of the properties\<close>

text \<open>
  What the constructor establishes and every operation keeps: a grid of \<open>rows \<times> cols\<close>
  tile objects, each once in the collection.
\<close>

definition wellFormed :: "GameArena \<Rightarrow> bool" where
  "wellFormed a = (0 < rows a \<and> 0 < cols a \<and> distinct (elemTiles a)
     \<and> int (length (elemTiles a)) = rows a * cols a)"

text \<open>
  The arena right after construction, for the tile types the generator supplied: the
  tile objects are numbered in document order, none is hidden, nothing is selected and
  no timeout is scheduled.
\<close>

definition newGameArena :: "int \<Rightarrow> int \<Rightarrow> nat list \<Rightarrow> GameArena" where
  "newGameArena r c tys =
     \<lparr>rows = r, cols = c, elemTiles = [0..<length tys],
      tileStore = (\<lambda>t. \<lparr>tileType = tys ! t, isHidden = False\<rparr>),
      elemPickedTile = None, elemTargetTile = None, pendingBadSwapTimeouts = 0\<rparr>"

subsection \<open>Walks\<close>

text \<open>The move of a direction as an offset of the index.\<close>

definition delta :: "GameArena \<Rightarrow> direction \<Rightarrow> int" where
  "delta a dir = (case dir of Left \<Rightarrow> - 1 | Up \<Rightarrow> - cols a | Right \<Rightarrow> 1 | Down \<Rightarrow> cols a)"

text \<open>The indices \<open>i + d, i + 2 d, \<dots>, i + k d\<close> of a walk of \<open>k\<close> steps from \<open>i\<close>.\<close>

definition walkIndices :: "int \<Rightarrow> int \<Rightarrow> nat \<Rightarrow> int list" where
  "walkIndices i d k = map (\<lambda>j. i + d * int j) [1..<Suc k]"

text \<open>
  Two indices on the line of a walk: the same row for a horizontal direction, the same
  column for a vertical one.
\<close>

definition sameLine :: "GameArena \<Rightarrow> direction \<Rightarrow> int \<Rightarrow> int \<Rightarrow> bool" where
  "sameLine a dir i j =
     (case dir of
        Left \<Rightarrow> i div cols a = j div cols a
      | Right \<Rightarrow> i div cols a = j div cols a
      | Up \<Rightarrow> i mod cols a = j mod cols a
      | Down \<Rightarrow> i mod cols a = j mod cols a)"

text \<open>The number of indices a walk can still cross; it drops with every step.\<close>

definition walkMeasure :: "GameArena \<Rightarrow> direction \<Rightarrow> int \<Rightarrow> nat" where
  "walkMeasure a dir i =
     (case dir of
        Left \<Rightarrow> nat i
      | Up \<Rightarrow> nat i
      | Right \<Rightarrow> nat (int (length (elemTiles a)) - i)
      | Down \<Rightarrow> nat (int (length (elemTiles a)) - i))"

subsection \<open>Neighbours and runs on the grid\<close>

text \<open>
  Two indices are neighbours on the grid: both on the board, and either in one row and
  in columns next to each other, or in one column and in rows next to each other.
\<close>

definition gridAdjacent :: "GameArena \<Rightarrow> int \<Rightarrow> int \<Rightarrow> bool" where
  "gridAdjacent a i j =
     (0 \<le> i \<and> i < rows a * cols a \<and> 0 \<le> j \<and> j < rows a * cols a
      \<and> (i div cols a = j div cols a \<and> \<bar>i mod cols a - j mod cols a\<bar> = 1
          \<or> i mod cols a = j mod cols a \<and> \<bar>i div cols a - j div cols a\<bar> = 1))"

text \<open>The type of the visible tile at an index; nothing outside the board and for a hidden tile.\<close>

definition visibleTypeAt :: "GameArena \<Rightarrow> int \<Rightarrow> nat option" where
  "visibleTypeAt a i =
     (case item (elemTiles a) i of
        None \<Rightarrow> None
      | Some t \<Rightarrow> if isHidden (tileStore a t) then None else Some (tileType (tileStore a t)))"

text \<open>
  Three visible tiles of one type side by side from index \<open>s\<close> in one row, respectively
  one below the other from index \<open>s\<close>; and an index that lies in such a run of three,
  which is what lying in a run of length three or more amounts to.
\<close>

definition horizontalThree :: "GameArena \<Rightarrow> int \<Rightarrow> bool" where
  "horizontalThree a s =
     (s div cols a = (s + 2) div cols a \<and> visibleTypeAt a s \<noteq> None
      \<and> visibleTypeAt a s = visibleTypeAt a (s + 1)
      \<and> visibleTypeAt a s = visibleTypeAt a (s + 2))"

definition verticalThree :: "GameArena \<Rightarrow> int \<Rightarrow> bool" where
  "verticalThree a s =
     (visibleTypeAt a s \<noteq> None
      \<and> visibleTypeAt a s = visibleTypeAt a (s + cols a)
      \<and> visibleTypeAt a s = visibleTypeAt a (s + 2 * cols a))"

definition inRunOfThree :: "GameArena \<Rightarrow> int \<Rightarrow> bool" where
  "inRunOfThree a i =
     (horizontalThree a (i - 2) \<or> horizontalThree a (i - 1) \<or> horizontalThree a i
      \<or> verticalThree a (i - 2 * cols a) \<or> verticalThree a (i - cols a) \<or> verticalThree a i)"

subsection \<open>Counting the passes of the bubbling loop\<close>

text \<open>
  The arena and the working set after at most \<open>n\<close> passes of the loop of
  \<open>#bubbleMatchToTopEdge\<close>: a pass is one \<open>forEach\<close> over the working set, and no pass
  is made once the working set is empty.
\<close>

fun bubblePasses ::
  "nat \<Rightarrow> GameArena \<times> ref list \<Rightarrow> (error \<times> GameArena) + (GameArena \<times> ref list)" where
  "bubblePasses 0 st = Inr st"
| "bubblePasses (Suc n) st =
     (if snd st = [] then Inr st
      else (case forEachBubbling (snd st) st of
              Inl ea \<Rightarrow> Inl ea
            | Inr st' \<Rightarrow> bubblePasses n st'))"

subsection \<open>Invariants of the selection\<close>

text \<open>An operation that only moved tiles in the document: every other field is as before.\<close>

definition onlyTilesMoved :: "GameArena \<Rightarrow> GameArena \<Rightarrow> bool" where
  "onlyTilesMoved a a' = (a' = a\<lparr>elemTiles := elemTiles a'\<rparr>)"

text \<open>
  The selection invariant, for the types \<open>ty\<close> the tile objects were created with: no
  tile object changes its type, a target is only set next to a picked tile, and a picked
  and a target tile differ in type.
\<close>

definition selectionInv :: "(ref \<Rightarrow> nat) \<Rightarrow> GameArena \<Rightarrow> bool" where
  "selectionInv ty a =
     ((\<forall>t. tileType (tileStore a t) = ty t)
      \<and> (elemTargetTile a = None \<or> elemPickedTile a \<noteq> None)
      \<and> (case (elemPickedTile a, elemTargetTile a) of
            (Some p, Some t) \<Rightarrow> ty p \<noteq> ty t
          | _ \<Rightarrow> True))"

text \<open>
  Play on a board: the arena is well formed, its tile objects are those of the set \<open>B\<close>,
  the selection invariant holds and the selected tiles are on the board. Events of a
  board: every click is on one of its tiles.
\<close>

definition playInv :: "ref set \<Rightarrow> (ref \<Rightarrow> nat) \<Rightarrow> GameArena \<Rightarrow> bool" where
  "playInv B ty a =
     (wellFormed a \<and> set (elemTiles a) = B \<and> selectionInv ty a
      \<and> (case elemPickedTile a of None \<Rightarrow> True | Some p \<Rightarrow> p \<in> B)
      \<and> (case elemTargetTile a of None \<Rightarrow> True | Some t \<Rightarrow> t \<in> B))"

definition clicksOnBoard :: "GameArena \<Rightarrow> event list \<Rightarrow> bool" where
  "clicksOnBoard a es =
     list_all (\<lambda>e. case e of Click c \<Rightarrow> c \<in> set (elemTiles a) | BadSwapTimeout \<Rightarrow> True) es"

subsection \<open>What a run of events leaves behind\<close>

text \<open>
  The document order of the tiles, the selection and the number of scheduled timeouts of
  an arena; and the exception an outcome carries, if any.
\<close>

definition selectionView :: "GameArena \<Rightarrow> ref list \<times> ref option \<times> ref option \<times> nat" where
  "selectionView a = (elemTiles a, elemPickedTile a, elemTargetTile a, pendingBadSwapTimeouts a)"

definition thrown :: "outcome option \<Rightarrow> error option" where
  "thrown r = (case r of Some (Inl ea) \<Rightarrow> Some (fst ea) | _ \<Rightarrow> None)"

section \<open>Concrete arenas\<close>

text \<open>
  One row of four tiles of type 1 whose third tile (index 2) is hidden: from index 3 the
  walk to the left meets the hidden tile first, and a visible tile of type 1 lies behind it.
\<close>

definition hiddenGapRow :: GameArena where
  "hiddenGapRow = hideMatch \<lparr>domSortedTiles = [2]\<rparr> (newGameArena 1 4 [1, 1, 1, 1])"

text \<open>
  Three rows of three tiles whose middle row holds three tiles of type 1; the tile at
  index 5 ends that row.
\<close>

definition rowOfThree :: GameArena where
  "rowOfThree = newGameArena 3 3 [2, 3, 4, 1, 1, 1, 5, 6, 7]"

text \<open>
  Two rows of three tiles, all of type 1: the tile at index 3 starts the second row, and
  the tile at index 2, of the same type, ends the first.
\<close>

definition twoRowsOneType :: GameArena where
  "twoRowsOneType = newGameArena 2 3 [1, 1, 1, 1, 1, 1]"

text \<open>
  One column of three tiles of type 1, all three cleared (a vertical match of three
  after \<open>#hideMatch\<close>).
\<close>

definition clearedColumn :: GameArena where
  "clearedColumn = hideMatch \<lparr>domSortedTiles = [0, 1, 2]\<rparr> (newGameArena 3 1 [1, 1, 1])"

text \<open>Three rows of three tiles whose bottom row is cleared.\<close>

definition clearedBottomRow :: GameArena where
  "clearedBottomRow =
     hideMatch \<lparr>domSortedTiles = [6, 7, 8]\<rparr> (newGameArena 3 3 [1, 2, 3, 4, 5, 6, 7, 7, 7])"

text \<open>
  Boards of two rows of two and of three rows of three tiles, every tile of its own
  type; the first of them with the tile at index 0 picked.
\<close>

definition fourTypes :: GameArena where
  "fourTypes = newGameArena 2 2 [1, 2, 3, 4]"

definition fourTypesPicked :: GameArena where
  "fourTypesPicked = fourTypes\<lparr>elemPickedTile := Some 0\<rparr>"

definition nineTypes :: GameArena where
  "nineTypes = newGameArena 3 3 [1, 2, 3, 4, 5, 6, 7, 8, 9]"

text \<open>Two rows of two tiles where the tiles at index 0 and index 2 have one type.\<close>

definition twoOfOneType :: GameArena where
  "twoOfOneType = newGameArena 2 2 [1, 2, 1, 4]"

text \<open>
  A board of three rows of three tiles on which the swap of the tiles at the indices 3
  and 4 puts a tile of type 1 into the middle of a column of type 1, with one more tile
  of type 1 to its right; and the arena after the clicks on these two tiles and the swap.
\<close>

definition lShapeBoard :: GameArena where
  "lShapeBoard = newGameArena 3 3 [2, 1, 3, 1, 6, 1, 4, 1, 5]"

definition lShapeSwapped :: GameArena where
  "lShapeSwapped =
     lShapeBoard\<lparr>elemTiles := [0, 1, 2, 4, 3, 5, 6, 7, 8],
                 elemPickedTile := Some 3, elemTargetTile := Some 4\<rparr>"

section \<open>The collection and the walks\<close>

lemma firstIndex_less: "t \<in> set xs \<Longrightarrow> firstIndex xs t < length xs"
  by (induction xs) auto

lemma nth_firstIndex: "t \<in> set xs \<Longrightarrow> xs ! firstIndex xs t = t"
  by (induction xs) auto

lemma firstIndex_nth: "distinct xs \<Longrightarrow> i < length xs \<Longrightarrow> firstIndex xs (xs ! i) = i"
proof (induction xs arbitrary: i)
  case Nil
  then show ?case by simp
next
  case (Cons x xs)
  then show ?case by (cases i) auto
qed

lemma firstIndex_append:
  "firstIndex (A @ R) u = (if u \<in> set A then firstIndex A u else length A + firstIndex R u)"
  by (induction A) auto

lemma indexOf_range: "t \<in> set xs \<Longrightarrow> 0 \<le> indexOf xs t \<and> indexOf xs t < int (length xs)"
  by (simp add: indexOf_def firstIndex_less)

lemma indexOf_nth:
  "distinct xs \<Longrightarrow> 0 \<le> i \<Longrightarrow> i < int (length xs) \<Longrightarrow> indexOf xs (xs ! nat i) = i"
  by (simp add: indexOf_def firstIndex_nth)

lemma item_in_range: "0 \<le> i \<Longrightarrow> i < int (length xs) \<Longrightarrow> item xs i = Some (xs ! nat i)"
  by (simp add: item_def)

lemma snd_helpers: "snd (matchSeekHelpersMap a dir) i = i + delta a dir"
  by (cases dir) (simp_all add: delta_def getIndexToLeft_def getIndexToUp_def
      getIndexToRight_def getIndexToDown_def)

lemma left_same_row: "0 < (c::int) \<Longrightarrow> i mod c \<noteq> 0 \<Longrightarrow> (i - 1) div c = i div c"
proof -
  assume c: "0 < c" and m: "i mod c \<noteq> 0"
  have "0 \<le> i mod c" "i mod c < c" using c by simp_all
  with m have r: "0 \<le> i mod c - 1" "i mod c - 1 < c" by linarith+
  have e: "i - 1 = (i div c) * c + (i mod c - 1)" by (simp add: algebra_simps)
  have "((i div c) * c + (i mod c - 1)) div c = i div c"
    using r c by (simp add: div_pos_pos_trivial)
  then show ?thesis by (simp only: e [symmetric])
qed

lemma right_same_row: "0 < (c::int) \<Longrightarrow> (i + 1) mod c \<noteq> 0 \<Longrightarrow> (i + 1) div c = i div c"
  using left_same_row[of c "i + 1"] by simp

lemma step_in_range:
  assumes "wellFormed a" "0 \<le> i" "i < int (length (elemTiles a))"
    and "\<not> fst (matchSeekHelpersMap a dir) i"
  shows "0 \<le> i + delta a dir \<and> i + delta a dir < int (length (elemTiles a))
     \<and> walkMeasure a dir (i + delta a dir) < walkMeasure a dir i
     \<and> sameLine a dir i (i + delta a dir)"
proof -
  let ?c = "cols a" and ?r = "rows a"
  from assms(1) have c: "0 < ?c" and r: "0 < ?r" and n: "int (length (elemTiles a)) = ?r * ?c"
    by (simp_all add: wellFormed_def)
  show ?thesis
  proof (cases dir)
    case Left
    with assms(4) have m: "i mod ?c \<noteq> 0" by (simp add: detectEdgeLeft_def)
    then have "i \<noteq> 0" by auto
    with assms(2,3) m c show ?thesis
      by (simp add: Left delta_def walkMeasure_def sameLine_def left_same_row)
  next
    case Up
    with assms(4) have "?c \<le> i" by (simp add: detectEdgeUp_def)
    with assms(2,3) c show ?thesis
      by (simp add: Up delta_def walkMeasure_def sameLine_def)
  next
    case Right
    with assms(4) have m: "(i + 1) mod ?c \<noteq> 0" by (simp add: detectEdgeRight_def)
    have "i + 1 \<noteq> ?r * ?c" using m by auto
    with assms(2,3) m c n show ?thesis
      by (simp add: Right delta_def walkMeasure_def sameLine_def right_same_row)
  next
    case Down
    with assms(4) have "i < (?r - 1) * ?c" by (simp add: detectEdgeDown_def)
    then have "i + ?c < ?r * ?c" by (simp add: algebra_simps)
    with assms(2,3) c n show ?thesis
      by (simp add: Down delta_def walkMeasure_def sameLine_def)
  qed
qed

lemma walkIndices_0: "walkIndices i d 0 = []"
  by (simp add: walkIndices_def)

lemma walkIndices_Suc: "walkIndices i d (Suc k) = (i + d) # walkIndices (i + d) d k"
proof -
  have "[1..<Suc (Suc k)] = 1 # map Suc [1..<Suc k]"
    by (simp add: upt_conv_Cons map_Suc_upt del: upt_Suc)
  then show ?thesis
    by (simp add: walkIndices_def algebra_simps del: upt_Suc)
qed

lemma sameLine_trans: "sameLine a dir i j \<Longrightarrow> sameLine a dir j k \<Longrightarrow> sameLine a dir i k"
  by (cases dir) (simp_all add: sameLine_def)

lemma seek_walk:
  assumes wf: "wellFormed a"
  shows "0 \<le> i \<Longrightarrow> i < int (length (elemTiles a)) \<Longrightarrow>
    \<exists>ts. seekInDirection a dir ty i = Some (Inr ts)
       \<and> map (indexOf (elemTiles a)) ts = walkIndices i (delta a dir) (length ts)
       \<and> set ts \<subseteq> set (elemTiles a)
       \<and> (\<forall>t\<in>set ts. isInMatch (tileStore a t) ty \<and> sameLine a dir i (indexOf (elemTiles a) t))"
proof (induction "walkMeasure a dir i" arbitrary: i rule: less_induct)
  case less
  show ?case
  proof (cases "fst (matchSeekHelpersMap a dir) i")
    case True
    then have "seekInDirection a dir ty i = Some (Inr [])"
      by (subst seekInDirection.simps) simp
    then show ?thesis by (simp add: walkIndices_0)
  next
    case False
    let ?j = "i + delta a dir"
    let ?t = "elemTiles a ! nat ?j"
    from step_in_range[OF wf less.prems False]
    have rng: "0 \<le> ?j" "?j < int (length (elemTiles a))"
      and dec: "walkMeasure a dir ?j < walkMeasure a dir i"
      and line: "sameLine a dir i ?j" by simp_all
    have it: "item (elemTiles a) ?j = Some ?t"
      using rng by (simp add: item_in_range)
    have dist: "distinct (elemTiles a)" using wf by (simp add: wellFormed_def)
    have idx: "indexOf (elemTiles a) ?t = ?j" using dist rng by (rule indexOf_nth)
    have mem: "?t \<in> set (elemTiles a)" using rng by simp
    show ?thesis
    proof (cases "isInMatch (tileStore a ?t) ty")
      case nomatch: False
      have "seekInDirection a dir ty i = Some (Inr [])"
        by (subst seekInDirection.simps) (simp add: False it nomatch snd_helpers)
      then show ?thesis by (simp add: walkIndices_0)
    next
      case match: True
      from less.hyps[OF dec rng] obtain ts where
        s: "seekInDirection a dir ty ?j = Some (Inr ts)"
        and w: "map (indexOf (elemTiles a)) ts = walkIndices ?j (delta a dir) (length ts)"
        and sub: "set ts \<subseteq> set (elemTiles a)"
        and all: "\<forall>t\<in>set ts. isInMatch (tileStore a t) ty \<and> sameLine a dir ?j (indexOf (elemTiles a) t)"
        by blast
      have "seekInDirection a dir ty i = Some (Inr (?t # ts))"
        by (subst seekInDirection.simps) (simp add: False it match s snd_helpers)
      moreover have "map (indexOf (elemTiles a)) (?t # ts) = walkIndices i (delta a dir) (length (?t # ts))"
        by (simp add: walkIndices_Suc idx w)
      moreover have "set (?t # ts) \<subseteq> set (elemTiles a)" using sub mem by simp
      moreover have "\<forall>t\<in>set (?t # ts). isInMatch (tileStore a t) ty \<and> sameLine a dir i (indexOf (elemTiles a) t)"
        using all match line idx by (auto intro: sameLine_trans)
      ultimately show ?thesis by blast
    qed
  qed
qed

lemma detectMatchXY_walks:
  assumes wf: "wellFormed a" and mem: "t \<in> set (elemTiles a)"
  shows "\<exists>l u r d.
      seekInDirection a Left (tileType (tileStore a t)) (indexOf (elemTiles a) t) = Some (Inr l)
    \<and> seekInDirection a Up (tileType (tileStore a t)) (indexOf (elemTiles a) t) = Some (Inr u)
    \<and> seekInDirection a Right (tileType (tileStore a t)) (indexOf (elemTiles a) t) = Some (Inr r)
    \<and> seekInDirection a Down (tileType (tileStore a t)) (indexOf (elemTiles a) t) = Some (Inr d)
    \<and> detectMatchXY a t = Some (Inr
         (if (l \<noteq> [] \<or> r \<noteq> []) \<and> 3 \<le> length (l @ [t] @ r)
             \<or> (u \<noteq> [] \<or> d \<noteq> []) \<and> 3 \<le> length (u @ [t] @ d)
          then Some \<lparr>alongX = (if l \<noteq> [] \<or> r \<noteq> [] then Some (l @ [t] @ r) else None),
                      alongY = (if u \<noteq> [] \<or> d \<noteq> [] then Some (u @ [t] @ d) else None)\<rparr>
          else None))"
proof -
  let ?i = "indexOf (elemTiles a) t" and ?ty = "tileType (tileStore a t)"
  from mem have rng: "0 \<le> ?i" "?i < int (length (elemTiles a))"
    by (simp_all add: indexOf_range)
  from seek_walk[OF wf rng, of Left ?ty] obtain l where l: "seekInDirection a Left ?ty ?i = Some (Inr l)" by blast
  from seek_walk[OF wf rng, of Up ?ty] obtain u where u: "seekInDirection a Up ?ty ?i = Some (Inr u)" by blast
  from seek_walk[OF wf rng, of Right ?ty] obtain r where r: "seekInDirection a Right ?ty ?i = Some (Inr r)" by blast
  from seek_walk[OF wf rng, of Down ?ty] obtain d where d: "seekInDirection a Down ?ty ?i = Some (Inr d)" by blast
  have o: "obtainDirectionalMatchInfo a t = Some (Inr \<lparr>left = l, up = u, right = r, down = d\<rparr>)"
    by (simp add: obtainDirectionalMatchInfo_def Let_def l u r d)
  have "detectMatchXY a t = Some (Inr
         (if (l \<noteq> [] \<or> r \<noteq> []) \<and> 3 \<le> length (l @ [t] @ r)
             \<or> (u \<noteq> [] \<or> d \<noteq> []) \<and> 3 \<le> length (u @ [t] @ d)
          then Some \<lparr>alongX = (if l \<noteq> [] \<or> r \<noteq> [] then Some (l @ [t] @ r) else None),
                      alongY = (if u \<noteq> [] \<or> d \<noteq> [] then Some (u @ [t] @ d) else None)\<rparr>
          else None))"
    by (cases l; cases r; cases u; cases d) (simp_all add: detectMatchXY_def o Let_def)
  with l u r d show ?thesis by blast
qed

lemma seek_walk_indices:
  assumes wf: "wellFormed a" and mem: "t \<in> set (elemTiles a)"
    and s: "seekInDirection a dir ty (indexOf (elemTiles a) t) = Some (Inr ts)"
  shows "map (indexOf (elemTiles a)) ts = walkIndices (indexOf (elemTiles a) t) (delta a dir) (length ts)"
    and "set ts \<subseteq> set (elemTiles a)"
    and "\<forall>u\<in>set ts. sameLine a dir (indexOf (elemTiles a) t) (indexOf (elemTiles a) u)"
proof -
  from mem have rng: "0 \<le> indexOf (elemTiles a) t" "indexOf (elemTiles a) t < int (length (elemTiles a))"
    by (simp_all add: indexOf_range)
  from seek_walk[OF wf rng, of dir ty] s
  show "map (indexOf (elemTiles a)) ts = walkIndices (indexOf (elemTiles a) t) (delta a dir) (length ts)"
    and "set ts \<subseteq> set (elemTiles a)"
    and "\<forall>u\<in>set ts. sameLine a dir (indexOf (elemTiles a) t) (indexOf (elemTiles a) u)"
    by auto
qed


lemma walkIndices_nth: "j < k \<Longrightarrow> walkIndices i d k ! j = i + d * int (Suc j)"
  by (simp add: walkIndices_def nth_map del: upt_Suc)

lemma indexOf_eq_nth: "t \<in> set xs \<Longrightarrow> indexOf xs t = p \<Longrightarrow> xs ! nat p = t"
  by (auto simp: indexOf_def nth_firstIndex)

lemma isInMatch_visible: "isInMatch g ty \<Longrightarrow> \<not> isHidden g"
  by (simp add: isInMatch_def)

section \<open>Hidden tiles break a run\<close>

text \<open>
  C8: every directional walk of the match detection returns, and the tiles it yields are
  the tiles of the first steps of the walk, none of them hidden. When the tile \<open>j\<close> steps
  away in the direction of the walk is hidden, the walk yields fewer than \<open>j\<close> tiles: the
  first hidden tile ends the run and is not part of it, whatever lies behind it.
\<close>

theorem seekInDirection_stops_at_hidden:
  assumes wf: "wellFormed a" and lo: "0 \<le> i" and hi: "i < int (length (elemTiles a))"
  shows "\<exists>ts. seekInDirection a dir ty i = Some (Inr ts)
     \<and> map (indexOf (elemTiles a)) ts = walkIndices i (delta a dir) (length ts)
     \<and> (\<forall>u\<in>set ts. \<not> isHidden (tileStore a u))
     \<and> (\<forall>j. 0 < j \<and> 0 \<le> i + delta a dir * int j
            \<and> i + delta a dir * int j < int (length (elemTiles a))
            \<and> isHidden (tileStore a (elemTiles a ! nat (i + delta a dir * int j)))
          \<longrightarrow> length ts < j)"
proof -
  from seek_walk[OF wf lo hi, of dir ty] obtain ts where
    s: "seekInDirection a dir ty i = Some (Inr ts)"
    and w: "map (indexOf (elemTiles a)) ts = walkIndices i (delta a dir) (length ts)"
    and sub: "set ts \<subseteq> set (elemTiles a)"
    and all: "\<forall>t\<in>set ts. isInMatch (tileStore a t) ty \<and> sameLine a dir i (indexOf (elemTiles a) t)"
    by blast
  have vis: "\<forall>u\<in>set ts. \<not> isHidden (tileStore a u)"
    using all by (auto dest: isInMatch_visible)
  have stop: "length ts < j"
    if j: "0 < j" and h: "isHidden (tileStore a (elemTiles a ! nat (i + delta a dir * int j)))" for j
  proof (rule ccontr)
    assume "\<not> length ts < j"
    with j have jl: "j - 1 < length ts" by simp
    then have u: "ts ! (j - 1) \<in> set ts" by simp
    have "indexOf (elemTiles a) (ts ! (j - 1)) = map (indexOf (elemTiles a)) ts ! (j - 1)"
      using jl by simp
    also have "\<dots> = i + delta a dir * int j"
      using jl j by (simp add: w walkIndices_nth)
    finally have "elemTiles a ! nat (i + delta a dir * int j) = ts ! (j - 1)"
      using u sub by (intro indexOf_eq_nth) auto
    with h vis u show False by simp
  qed
  from s w vis stop show ?thesis by blast
qed

text \<open>
  In \<open>hiddenGapRow\<close> the walk to the left from index 3 and type 1 yields nothing, although
  the tile at index 1, behind the hidden tile at index 2, is visible and of type 1.
\<close>

theorem seekInDirection_stops_at_hidden_witness:
  "wellFormed hiddenGapRow \<and> isHidden (tileStore hiddenGapRow (elemTiles hiddenGapRow ! 2))
   \<and> isInMatch (tileStore hiddenGapRow (elemTiles hiddenGapRow ! 1)) 1
   \<and> seekInDirection hiddenGapRow Left 1 3 = Some (Inr [])"
proof -
  have wf: "wellFormed hiddenGapRow" by code_simp
  have rng: "(0::int) \<le> 3" "(3::int) < int (length (elemTiles hiddenGapRow))" by code_simp+
  have h: "isHidden (tileStore hiddenGapRow (elemTiles hiddenGapRow ! 2))" by code_simp
  have v: "isInMatch (tileStore hiddenGapRow (elemTiles hiddenGapRow ! 1)) 1" by code_simp
  have d: "delta hiddenGapRow Left = - 1" by (simp add: delta_def)
  from seekInDirection_stops_at_hidden[OF wf rng, of Left 1] obtain ts where
    s: "seekInDirection hiddenGapRow Left 1 3 = Some (Inr ts)"
    and st: "\<forall>j. 0 < j \<and> 0 \<le> 3 + delta hiddenGapRow Left * int j
            \<and> 3 + delta hiddenGapRow Left * int j < int (length (elemTiles hiddenGapRow))
            \<and> isHidden (tileStore hiddenGapRow (elemTiles hiddenGapRow ! nat (3 + delta hiddenGapRow Left * int j)))
          \<longrightarrow> length ts < j" by blast
  from st[rule_format, of 1] h rng have "length ts < 1" by (simp add: d)
  then have "ts = []" by simp
  with s wf h v show ?thesis by simp
qed

section \<open>The order of the tiles of an axis\<close>

text \<open>
  C3, as the code has it: the horizontal axis of a \<open>MatchInfo\<close> lists the walk to the
  left in the order of the walk, that is from the analysed tile outwards (the indices
  \<open>i - 1, i - 2, \<dots>\<close>), then the analysed tile, then the walk to the right (the
  indices \<open>i + 1, i + 2, \<dots>\<close>); the vertical axis lists the walk up from the analysed
  tile outwards (\<open>i - cols, i - 2 cols, \<dots>\<close>), the analysed tile, then the walk down.
  The walk to the left and the walk up are not reversed.
\<close>

theorem detectMatchXY_axis_order:
  assumes wf: "wellFormed a" and mem: "t \<in> set (elemTiles a)"
    and det: "detectMatchXY a t = Some (Inr (Some mi))"
  shows "(\<forall>xs. alongX mi = Some xs \<longrightarrow>
            (\<exists>k m. map (indexOf (elemTiles a)) xs =
               walkIndices (indexOf (elemTiles a) t) (- 1) k
               @ [indexOf (elemTiles a) t]
               @ walkIndices (indexOf (elemTiles a) t) 1 m))
       \<and> (\<forall>ys. alongY mi = Some ys \<longrightarrow>
            (\<exists>k m. map (indexOf (elemTiles a)) ys =
               walkIndices (indexOf (elemTiles a) t) (- cols a) k
               @ [indexOf (elemTiles a) t]
               @ walkIndices (indexOf (elemTiles a) t) (cols a) m))"
proof -
  let ?ix = "indexOf (elemTiles a)"
  from detectMatchXY_walks[OF wf mem] obtain l u r d where
    l: "seekInDirection a Left (tileType (tileStore a t)) (?ix t) = Some (Inr l)"
    and u: "seekInDirection a Up (tileType (tileStore a t)) (?ix t) = Some (Inr u)"
    and r: "seekInDirection a Right (tileType (tileStore a t)) (?ix t) = Some (Inr r)"
    and d: "seekInDirection a Down (tileType (tileStore a t)) (?ix t) = Some (Inr d)"
    and res: "detectMatchXY a t = Some (Inr
         (if (l \<noteq> [] \<or> r \<noteq> []) \<and> 3 \<le> length (l @ [t] @ r)
             \<or> (u \<noteq> [] \<or> d \<noteq> []) \<and> 3 \<le> length (u @ [t] @ d)
          then Some \<lparr>alongX = (if l \<noteq> [] \<or> r \<noteq> [] then Some (l @ [t] @ r) else None),
                      alongY = (if u \<noteq> [] \<or> d \<noteq> [] then Some (u @ [t] @ d) else None)\<rparr>
          else None))"
    by blast
  from res det have mi: "mi = \<lparr>alongX = (if l \<noteq> [] \<or> r \<noteq> [] then Some (l @ [t] @ r) else None),
                      alongY = (if u \<noteq> [] \<or> d \<noteq> [] then Some (u @ [t] @ d) else None)\<rparr>"
    by (simp split: if_splits)
  have wl: "map ?ix l = walkIndices (?ix t) (- 1) (length l)"
    using seek_walk_indices(1)[OF wf mem l] by (simp add: delta_def)
  have wr: "map ?ix r = walkIndices (?ix t) 1 (length r)"
    using seek_walk_indices(1)[OF wf mem r] by (simp add: delta_def)
  have wu: "map ?ix u = walkIndices (?ix t) (- cols a) (length u)"
    using seek_walk_indices(1)[OF wf mem u] by (simp add: delta_def)
  have wd: "map ?ix d = walkIndices (?ix t) (cols a) (length d)"
    using seek_walk_indices(1)[OF wf mem d] by (simp add: delta_def)
  have x: "\<exists>k m. map ?ix xs = walkIndices (?ix t) (- 1) k @ [?ix t] @ walkIndices (?ix t) 1 m"
    if "alongX mi = Some xs" for xs
  proof -
    from that mi have "xs = l @ [t] @ r" by (simp split: if_splits)
    then have "map ?ix xs = walkIndices (?ix t) (- 1) (length l) @ [?ix t] @ walkIndices (?ix t) 1 (length r)"
      by (simp add: wl wr)
    then show ?thesis by blast
  qed
  have y: "\<exists>k m. map ?ix ys = walkIndices (?ix t) (- cols a) k @ [?ix t] @ walkIndices (?ix t) (cols a) m"
    if "alongY mi = Some ys" for ys
  proof -
    from that mi have "ys = u @ [t] @ d" by (simp split: if_splits)
    then have "map ?ix ys = walkIndices (?ix t) (- cols a) (length u) @ [?ix t] @ walkIndices (?ix t) (cols a) (length d)"
      by (simp add: wu wd)
    then show ?thesis by blast
  qed
  from x y show ?thesis by blast
qed

text \<open>
  In \<open>rowOfThree\<close> the analysis of the tile at index 5 gives the horizontal axis
  \<open>[4, 3, 5]\<close>: two steps to the left, the tile itself, no step to the right.
\<close>

theorem detectMatchXY_axis_order_witness:
  "wellFormed rowOfThree \<and> 5 \<in> set (elemTiles rowOfThree)
   \<and> detectMatchXY rowOfThree 5 = Some (Inr (Some \<lparr>alongX = Some [4, 3, 5], alongY = None\<rparr>))
   \<and> (\<exists>k m. map (indexOf (elemTiles rowOfThree)) [4, 3, 5] =
         walkIndices (indexOf (elemTiles rowOfThree) 5) (- 1) k
         @ [indexOf (elemTiles rowOfThree) 5]
         @ walkIndices (indexOf (elemTiles rowOfThree) 5) 1 m)"
proof -
  have wf: "wellFormed rowOfThree" by code_simp
  have mem: "5 \<in> set (elemTiles rowOfThree)" by code_simp
  have det: "detectMatchXY rowOfThree 5 = Some (Inr (Some \<lparr>alongX = Some [4, 3, 5], alongY = None\<rparr>))"
    by code_simp
  have ax: "alongX \<lparr>alongX = Some [4, 3, 5], alongY = None\<rparr> = Some [4, 3, 5]" by simp
  note e = detectMatchXY_axis_order[OF wf mem det, THEN conjunct1, rule_format, OF ax]
  show ?thesis by (intro conjI wf mem det e)
qed

text \<open>
  C3 as the spec states it fails there: the axis found around index 5 is a
  \<open>MatchInfo\<close> that is not \<open>null\<close>, and its horizontal axis \<open>[4, 3, 5]\<close> is not in
  ascending order of the grid index.
\<close>

theorem alongX_ascending_counterexample:
  "wellFormed rowOfThree \<and> 5 \<in> set (elemTiles rowOfThree)
   \<and> detectMatchXY rowOfThree 5 = Some (Inr (Some \<lparr>alongX = Some [4, 3, 5], alongY = None\<rparr>))
   \<and> map (indexOf (elemTiles rowOfThree)) [4, 3, 5] = [4, 3, 5]
   \<and> \<not> sorted (map (indexOf (elemTiles rowOfThree)) [4, 3, 5])"
  by code_simp


section \<open>No match across a grid edge\<close>

text \<open>
  C7: the match detection around a tile of the board returns without an exception;
  every tile of the horizontal axis it finds lies in the row of the analysed tile and
  every tile of the vertical axis in its column, and from a tile in column 0 the walk
  to the left yields nothing. The edge tests and the moves are those the spec gives for
  \<open>BoardWalker\<close>.
\<close>

theorem detectMatchXY_no_wraparound:
  assumes wf: "wellFormed a" and mem: "t \<in> set (elemTiles a)"
  shows "\<exists>res. detectMatchXY a t = Some (Inr res)
     \<and> (\<forall>mi. res = Some mi \<longrightarrow>
          (\<forall>xs. alongX mi = Some xs \<longrightarrow>
             (\<forall>u\<in>set xs. u \<in> set (elemTiles a)
                \<and> indexOf (elemTiles a) u div cols a = indexOf (elemTiles a) t div cols a))
        \<and> (\<forall>ys. alongY mi = Some ys \<longrightarrow>
             (\<forall>u\<in>set ys. u \<in> set (elemTiles a)
                \<and> indexOf (elemTiles a) u mod cols a = indexOf (elemTiles a) t mod cols a)))
     \<and> (indexOf (elemTiles a) t mod cols a = 0 \<longrightarrow>
          seekInDirection a Left (tileType (tileStore a t)) (indexOf (elemTiles a) t) = Some (Inr []))"
proof -
  let ?ix = "indexOf (elemTiles a)"
  from detectMatchXY_walks[OF wf mem] obtain l u r d where
    l: "seekInDirection a Left (tileType (tileStore a t)) (?ix t) = Some (Inr l)"
    and u: "seekInDirection a Up (tileType (tileStore a t)) (?ix t) = Some (Inr u)"
    and r: "seekInDirection a Right (tileType (tileStore a t)) (?ix t) = Some (Inr r)"
    and d: "seekInDirection a Down (tileType (tileStore a t)) (?ix t) = Some (Inr d)"
    and res: "detectMatchXY a t = Some (Inr
         (if (l \<noteq> [] \<or> r \<noteq> []) \<and> 3 \<le> length (l @ [t] @ r)
             \<or> (u \<noteq> [] \<or> d \<noteq> []) \<and> 3 \<le> length (u @ [t] @ d)
          then Some \<lparr>alongX = (if l \<noteq> [] \<or> r \<noteq> [] then Some (l @ [t] @ r) else None),
                      alongY = (if u \<noteq> [] \<or> d \<noteq> [] then Some (u @ [t] @ d) else None)\<rparr>
          else None))"
    by blast
  have sl: "\<forall>v\<in>set l. v \<in> set (elemTiles a) \<and> ?ix v div cols a = ?ix t div cols a"
    using seek_walk_indices(2,3)[OF wf mem l] by (auto simp: sameLine_def)
  have sr: "\<forall>v\<in>set r. v \<in> set (elemTiles a) \<and> ?ix v div cols a = ?ix t div cols a"
    using seek_walk_indices(2,3)[OF wf mem r] by (auto simp: sameLine_def)
  have su: "\<forall>v\<in>set u. v \<in> set (elemTiles a) \<and> ?ix v mod cols a = ?ix t mod cols a"
    using seek_walk_indices(2,3)[OF wf mem u] by (auto simp: sameLine_def)
  have sd: "\<forall>v\<in>set d. v \<in> set (elemTiles a) \<and> ?ix v mod cols a = ?ix t mod cols a"
    using seek_walk_indices(2,3)[OF wf mem d] by (auto simp: sameLine_def)
  have x: "\<forall>v\<in>set xs. v \<in> set (elemTiles a) \<and> ?ix v div cols a = ?ix t div cols a"
    if "xs = l @ [t] @ r" for xs
    using that sl sr mem by auto
  have y: "\<forall>v\<in>set ys. v \<in> set (elemTiles a) \<and> ?ix v mod cols a = ?ix t mod cols a"
    if "ys = u @ [t] @ d" for ys
    using that su sd mem by auto
  have edge: "seekInDirection a Left (tileType (tileStore a t)) (?ix t) = Some (Inr [])"
    if "?ix t mod cols a = 0"
    using that by (subst seekInDirection.simps) (simp add: detectEdgeLeft_def)
  let ?R = "if (l \<noteq> [] \<or> r \<noteq> []) \<and> 3 \<le> length (l @ [t] @ r)
             \<or> (u \<noteq> [] \<or> d \<noteq> []) \<and> 3 \<le> length (u @ [t] @ d)
          then Some \<lparr>alongX = (if l \<noteq> [] \<or> r \<noteq> [] then Some (l @ [t] @ r) else None),
                      alongY = (if u \<noteq> [] \<or> d \<noteq> [] then Some (u @ [t] @ d) else None)\<rparr>
          else None"
  have axes: "(\<forall>xs. alongX mi = Some xs \<longrightarrow>
             (\<forall>u\<in>set xs. u \<in> set (elemTiles a) \<and> ?ix u div cols a = ?ix t div cols a))
        \<and> (\<forall>ys. alongY mi = Some ys \<longrightarrow>
             (\<forall>u\<in>set ys. u \<in> set (elemTiles a) \<and> ?ix u mod cols a = ?ix t mod cols a))"
    if "?R = Some mi" for mi
  proof -
    from that have mi: "alongX mi = (if l \<noteq> [] \<or> r \<noteq> [] then Some (l @ [t] @ r) else None)"
      "alongY mi = (if u \<noteq> [] \<or> d \<noteq> [] then Some (u @ [t] @ d) else None)"
      by (auto split: if_splits)
    have "\<forall>v\<in>set xs. v \<in> set (elemTiles a) \<and> ?ix v div cols a = ?ix t div cols a"
      if "alongX mi = Some xs" for xs
      using that mi(1) by (intro x) (simp split: if_splits)
    moreover have "\<forall>v\<in>set ys. v \<in> set (elemTiles a) \<and> ?ix v mod cols a = ?ix t mod cols a"
      if "alongY mi = Some ys" for ys
      using that mi(2) by (intro y) (simp split: if_splits)
    ultimately show ?thesis by blast
  qed
  from res axes edge show ?thesis by blast
qed

text \<open>
  In \<open>twoRowsOneType\<close> the tile at index 3 is in column 0 and the tile before it in the
  collection (index 2, last of the row above) has its type: the walk to the left yields
  nothing, the horizontal axis is \<open>[3, 4, 5]\<close>, all in row 1, and the vertical axis
  \<open>[0, 3]\<close>, all in column 0.
\<close>

theorem detectMatchXY_no_wraparound_witness:
  "wellFormed twoRowsOneType \<and> 3 \<in> set (elemTiles twoRowsOneType)
   \<and> indexOf (elemTiles twoRowsOneType) 3 mod cols twoRowsOneType = 0
   \<and> tileType (tileStore twoRowsOneType 2) = tileType (tileStore twoRowsOneType 3)
   \<and> seekInDirection twoRowsOneType Left (tileType (tileStore twoRowsOneType 3))
        (indexOf (elemTiles twoRowsOneType) 3) = Some (Inr [])
   \<and> detectMatchXY twoRowsOneType 3 = Some (Inr (Some \<lparr>alongX = Some [3, 4, 5], alongY = Some [0, 3]\<rparr>))
   \<and> indexOf (elemTiles twoRowsOneType) 4 div cols twoRowsOneType = indexOf (elemTiles twoRowsOneType) 3 div cols twoRowsOneType
   \<and> indexOf (elemTiles twoRowsOneType) 5 div cols twoRowsOneType = indexOf (elemTiles twoRowsOneType) 3 div cols twoRowsOneType
   \<and> indexOf (elemTiles twoRowsOneType) 0 mod cols twoRowsOneType = indexOf (elemTiles twoRowsOneType) 3 mod cols twoRowsOneType"
proof -
  have wf: "wellFormed twoRowsOneType" by code_simp
  have mem: "3 \<in> set (elemTiles twoRowsOneType)" by code_simp
  have col: "indexOf (elemTiles twoRowsOneType) 3 mod cols twoRowsOneType = 0" by code_simp
  have ty: "tileType (tileStore twoRowsOneType 2) = tileType (tileStore twoRowsOneType 3)" by code_simp
  have det: "detectMatchXY twoRowsOneType 3 = Some (Inr (Some \<lparr>alongX = Some [3, 4, 5], alongY = Some [0, 3]\<rparr>))"
    by code_simp
  from detectMatchXY_no_wraparound[OF wf mem] obtain res where
    r: "detectMatchXY twoRowsOneType 3 = Some (Inr res)"
    and ax: "\<forall>mi. res = Some mi \<longrightarrow>
          (\<forall>xs. alongX mi = Some xs \<longrightarrow>
             (\<forall>u\<in>set xs. u \<in> set (elemTiles twoRowsOneType)
                \<and> indexOf (elemTiles twoRowsOneType) u div cols twoRowsOneType
                  = indexOf (elemTiles twoRowsOneType) 3 div cols twoRowsOneType))
        \<and> (\<forall>ys. alongY mi = Some ys \<longrightarrow>
             (\<forall>u\<in>set ys. u \<in> set (elemTiles twoRowsOneType)
                \<and> indexOf (elemTiles twoRowsOneType) u mod cols twoRowsOneType
                  = indexOf (elemTiles twoRowsOneType) 3 mod cols twoRowsOneType))"
    and e: "indexOf (elemTiles twoRowsOneType) 3 mod cols twoRowsOneType = 0 \<longrightarrow>
          seekInDirection twoRowsOneType Left (tileType (tileStore twoRowsOneType 3))
            (indexOf (elemTiles twoRowsOneType) 3) = Some (Inr [])"
    by blast
  from r det have res: "res = Some \<lparr>alongX = Some [3, 4, 5], alongY = Some [0, 3]\<rparr>" by simp
  have px: "alongX \<lparr>alongX = Some [3, 4, 5], alongY = Some [0, 3]\<rparr> = Some [3, 4, 5]"
    and py: "alongY \<lparr>alongX = Some [3, 4, 5], alongY = Some [0, 3]\<rparr> = Some [0, 3]" by simp_all
  from ax[rule_format, OF res, THEN conjunct1, rule_format, OF px]
  have hx: "\<forall>u\<in>set [3, 4, 5]. u \<in> set (elemTiles twoRowsOneType)
                \<and> indexOf (elemTiles twoRowsOneType) u div cols twoRowsOneType
                  = indexOf (elemTiles twoRowsOneType) 3 div cols twoRowsOneType" by blast
  from ax[rule_format, OF res, THEN conjunct2, rule_format, OF py]
  have hy: "\<forall>u\<in>set [0, 3]. u \<in> set (elemTiles twoRowsOneType)
                \<and> indexOf (elemTiles twoRowsOneType) u mod cols twoRowsOneType
                  = indexOf (elemTiles twoRowsOneType) 3 mod cols twoRowsOneType" by blast
  from e col have sk: "seekInDirection twoRowsOneType Left (tileType (tileStore twoRowsOneType 3))
            (indexOf (elemTiles twoRowsOneType) 3) = Some (Inr [])" by blast
  from hx have x4: "indexOf (elemTiles twoRowsOneType) 4 div cols twoRowsOneType
      = indexOf (elemTiles twoRowsOneType) 3 div cols twoRowsOneType"
    and x5: "indexOf (elemTiles twoRowsOneType) 5 div cols twoRowsOneType
      = indexOf (elemTiles twoRowsOneType) 3 div cols twoRowsOneType" by simp_all
  from hy have y0: "indexOf (elemTiles twoRowsOneType) 0 mod cols twoRowsOneType
      = indexOf (elemTiles twoRowsOneType) 3 mod cols twoRowsOneType" by simp
  show ?thesis
    by (intro conjI wf mem col ty sk det x4 x5 y0)
qed

section \<open>\<open>#swapTiles\<close> exchanges two tiles\<close>

lemma insertAfter_append: "r \<notin> set A \<Longrightarrow> insertAfter r n (A @ r # R) = A @ r # n # R"
  by (induction A) auto

lemma insertBefore_append: "r \<notin> set A \<Longrightarrow> insertBefore r n (A @ r # R) = A @ n # r # R"
  by (induction A) auto

lemma indexOf_append_Cons: "t \<notin> set A \<Longrightarrow> indexOf (A @ t # R) t = int (length A)"
  by (simp add: indexOf_def firstIndex_append)

lemma item_append_Cons: "item (A @ t # R) (int (length A)) = Some t"
  by (simp add: item_def)

lemma swapTiles_preceding:
  assumes d: "distinct (A @ t2 # B @ t1 # C)" and e: "elemTiles a = A @ t2 # B @ t1 # C"
  shows "swapTiles t1 t2 a = Inr (a\<lparr>elemTiles := A @ t1 # B @ t2 # C\<rparr>)"
proof -
  define k where "k = int (length (A @ t2 # B))"
  have i1: "indexOf (elemTiles a) t1 = k"
    using d indexOf_append_Cons[of t1 "A @ t2 # B" C] by (simp add: e k_def)
  have lt: "indexOf (elemTiles a) t2 < k"
    using d by (simp add: e indexOf_append_Cons k_def)
  have n1: "nodeAfter t2 t1 (elemTiles a) = A @ t2 # t1 # B @ C"
    using d by (simp add: e nodeAfter_def insertAfter_append)
  have "\<exists>r. item (A @ t2 # t1 # B @ C) k = Some r
      \<and> nodeAfter r t2 (A @ t2 # t1 # B @ C) = A @ t1 # B @ t2 # C"
  proof (cases B rule: rev_cases)
    case Nil
    have "item (A @ t2 # t1 # B @ C) k = Some t1"
      using item_append_Cons[of "A @ [t2]" t1 C] by (simp add: Nil k_def)
    moreover have "nodeAfter t1 t2 (A @ t2 # t1 # B @ C) = A @ t1 # B @ t2 # C"
      using d insertAfter_append[of t1 A t2 C] by (simp add: Nil nodeAfter_def)
    ultimately show ?thesis by blast
  next
    case (snoc B0 r)
    have "item (A @ t2 # t1 # B @ C) k = Some r"
      using item_append_Cons[of "A @ t2 # t1 # B0" r C] by (simp add: snoc k_def)
    moreover have "nodeAfter r t2 (A @ t2 # t1 # B @ C) = A @ t1 # B @ t2 # C"
      using d insertAfter_append[of r "A @ t1 # B0" t2 C] by (simp add: snoc nodeAfter_def)
    ultimately show ?thesis by blast
  qed
  then obtain r where it: "item (A @ t2 # t1 # B @ C) k = Some r"
    and n2: "nodeAfter r t2 (A @ t2 # t1 # B @ C) = A @ t1 # B @ t2 # C" by blast
  show ?thesis
    by (simp add: swapTiles_def Let_def i1 lt n1 it n2)
qed

lemma swapTiles_following:
  assumes d: "distinct (A @ t1 # B @ t2 # C)" and e: "elemTiles a = A @ t1 # B @ t2 # C"
  shows "swapTiles t1 t2 a = Inr (a\<lparr>elemTiles := A @ t2 # B @ t1 # C\<rparr>)"
proof -
  define k where "k = int (length A)"
  have i1: "indexOf (elemTiles a) t1 = k"
    using d by (simp add: e indexOf_append_Cons k_def)
  have lt: "\<not> indexOf (elemTiles a) t2 < k"
    using d indexOf_append_Cons[of t2 "A @ t1 # B" C] by (simp add: e k_def)
  have n1: "nodeBefore t2 t1 (elemTiles a) = A @ B @ t1 # t2 # C"
    using d insertBefore_append[of t2 "A @ B" t1 C] by (simp add: e nodeBefore_def)
  have "\<exists>r. item (A @ B @ t1 # t2 # C) k = Some r
      \<and> nodeBefore r t2 (A @ B @ t1 # t2 # C) = A @ t2 # B @ t1 # C"
  proof (cases B)
    case Nil
    have "item (A @ B @ t1 # t2 # C) k = Some t1"
      using item_append_Cons[of A t1 "t2 # C"] by (simp add: Nil k_def)
    moreover have "nodeBefore t1 t2 (A @ B @ t1 # t2 # C) = A @ t2 # B @ t1 # C"
      using d insertBefore_append[of t1 A t2 C] by (simp add: Nil nodeBefore_def)
    ultimately show ?thesis by blast
  next
    case (Cons r B0)
    have "item (A @ B @ t1 # t2 # C) k = Some r"
      using item_append_Cons[of A r "B0 @ t1 # t2 # C"] by (simp add: Cons k_def)
    moreover have "nodeBefore r t2 (A @ B @ t1 # t2 # C) = A @ t2 # B @ t1 # C"
      using d insertBefore_append[of r A t2 "B0 @ t1 # C"] by (simp add: Cons nodeBefore_def)
    ultimately show ?thesis by blast
  qed
  then obtain r where it: "item (A @ B @ t1 # t2 # C) k = Some r"
    and n2: "nodeBefore r t2 (A @ B @ t1 # t2 # C) = A @ t2 # B @ t1 # C" by blast
  show ?thesis
    by (simp add: swapTiles_def Let_def i1 lt n1 it n2)
qed

lemma exchange_props:
  assumes d: "distinct (A @ x # B @ y # C)"
  shows "distinct (A @ y # B @ x # C)"
    and "length (A @ y # B @ x # C) = length (A @ x # B @ y # C)"
    and "set (A @ y # B @ x # C) = set (A @ x # B @ y # C)"
    and "indexOf (A @ y # B @ x # C) x = indexOf (A @ x # B @ y # C) y"
    and "indexOf (A @ y # B @ x # C) y = indexOf (A @ x # B @ y # C) x"
    and "u \<noteq> x \<Longrightarrow> u \<noteq> y \<Longrightarrow> indexOf (A @ y # B @ x # C) u = indexOf (A @ x # B @ y # C) u"
  using d by (auto simp: indexOf_def firstIndex_append)

lemma two_members_split:
  assumes "distinct xs" "x \<in> set xs" "y \<in> set xs" "x \<noteq> y"
  shows "(\<exists>A B C. xs = A @ x # B @ y # C) \<or> (\<exists>A B C. xs = A @ y # B @ x # C)"
proof -
  from assms(2) obtain P Q where xs: "xs = P @ x # Q" by (auto dest: split_list)
  with assms(3,4) have "y \<in> set P \<or> y \<in> set Q" by auto
  then show ?thesis
  proof
    assume "y \<in> set P"
    then obtain A B where "P = A @ y # B" by (auto dest: split_list)
    with xs have "xs = A @ y # B @ x # Q" by simp
    then show ?thesis by blast
  next
    assume "y \<in> set Q"
    then obtain B C where "Q = B @ y # C" by (auto dest: split_list)
    with xs have "xs = P @ x # B @ y # C" by simp
    then show ?thesis by blast
  qed
qed

lemma swapTiles_exchange:
  assumes d: "distinct (elemTiles a)" and m1: "t1 \<in> set (elemTiles a)"
    and m2: "t2 \<in> set (elemTiles a)" and ne: "t1 \<noteq> t2"
  shows "\<exists>xs'. swapTiles t1 t2 a = Inr (a\<lparr>elemTiles := xs'\<rparr>)
     \<and> distinct xs' \<and> length xs' = length (elemTiles a) \<and> set xs' = set (elemTiles a)
     \<and> indexOf xs' t1 = indexOf (elemTiles a) t2
     \<and> indexOf xs' t2 = indexOf (elemTiles a) t1
     \<and> (\<forall>u. u \<noteq> t1 \<and> u \<noteq> t2 \<longrightarrow> indexOf xs' u = indexOf (elemTiles a) u)"
proof -
  from two_members_split[OF d m1 m2 ne]
  show ?thesis
  proof
    assume "\<exists>A B C. elemTiles a = A @ t1 # B @ t2 # C"
    then obtain A B C where e: "elemTiles a = A @ t1 # B @ t2 # C" by blast
    with d have dd: "distinct (A @ t1 # B @ t2 # C)" by simp
    from swapTiles_following[OF dd e] exchange_props[OF dd]
    show ?thesis unfolding e by blast
  next
    assume "\<exists>A B C. elemTiles a = A @ t2 # B @ t1 # C"
    then obtain A B C where e: "elemTiles a = A @ t2 # B @ t1 # C" by blast
    with d have dd: "distinct (A @ t2 # B @ t1 # C)" by simp
    from swapTiles_preceding[OF dd e] exchange_props[OF dd]
    show ?thesis unfolding e
      by (intro exI[of _ "A @ t1 # B @ t2 # C"]) simp
  qed
qed

section \<open>Bubbling a cleared match to the top edge\<close>

lemma bubbleTile_removes:
  assumes wf: "wellFormed a" and mem: "t \<in> set (elemTiles a)"
    and stop: "detectEdgeUp a (indexOf (elemTiles a) t)
       \<or> isHidden (tileStore a (elemTiles a ! nat (indexOf (elemTiles a) t - cols a)))"
  shows "bubbleTile t (a, fx) = Inr (a, removeAll t fx)"
proof (cases "detectEdgeUp a (indexOf (elemTiles a) t)")
  case True
  then show ?thesis by (simp add: bubbleTile_def tryGetFallingTile_def)
next
  case False
  with stop have h: "isHidden (tileStore a (elemTiles a ! nat (indexOf (elemTiles a) t - cols a)))"
    by simp
  from False have "cols a \<le> indexOf (elemTiles a) t" by (simp add: detectEdgeUp_def)
  moreover from wf have "0 < cols a" by (simp add: wellFormed_def)
  moreover note indexOf_range[OF mem]
  ultimately have "item (elemTiles a) (indexOf (elemTiles a) t - cols a)
      = Some (elemTiles a ! nat (indexOf (elemTiles a) t - cols a))"
    by (intro item_in_range) simp_all
  with False h show ?thesis
    by (simp add: bubbleTile_def tryGetFallingTile_def getIndexToUp_def)
qed

lemma bubbleTile_swaps:
  assumes wf: "wellFormed a" and mem: "t \<in> set (elemTiles a)"
    and inner: "\<not> detectEdgeUp a (indexOf (elemTiles a) t)"
    and vis: "\<not> isHidden (tileStore a (elemTiles a ! nat (indexOf (elemTiles a) t - cols a)))"
  shows "\<exists>xs'. bubbleTile t (a, fx) = Inr (a\<lparr>elemTiles := xs'\<rparr>, fx)
     \<and> distinct xs' \<and> length xs' = length (elemTiles a) \<and> set xs' = set (elemTiles a)
     \<and> indexOf xs' t = indexOf (elemTiles a) t - cols a
     \<and> indexOf xs' (elemTiles a ! nat (indexOf (elemTiles a) t - cols a)) = indexOf (elemTiles a) t
     \<and> (\<forall>u. u \<noteq> t \<and> u \<noteq> elemTiles a ! nat (indexOf (elemTiles a) t - cols a)
            \<longrightarrow> indexOf xs' u = indexOf (elemTiles a) u)"
proof -
  let ?i = "indexOf (elemTiles a) t"
  let ?f = "elemTiles a ! nat (?i - cols a)"
  from wf have c: "0 < cols a" and d: "distinct (elemTiles a)" by (simp_all add: wellFormed_def)
  from inner have ge: "cols a \<le> ?i" by (simp add: detectEdgeUp_def)
  note r = indexOf_range[OF mem]
  have rng: "0 \<le> ?i - cols a" "?i - cols a < int (length (elemTiles a))"
    using ge c r by simp_all
  have it: "item (elemTiles a) (?i - cols a) = Some ?f" using rng by (rule item_in_range)
  have fmem: "?f \<in> set (elemTiles a)" using rng by simp
  have fidx: "indexOf (elemTiles a) ?f = ?i - cols a" using d rng by (rule indexOf_nth)
  have ne: "t \<noteq> ?f" using fidx c by auto
  from swapTiles_exchange[OF d mem fmem ne] obtain xs' where
    sw: "swapTiles t ?f a = Inr (a\<lparr>elemTiles := xs'\<rparr>)"
    and p: "distinct xs'" "length xs' = length (elemTiles a)" "set xs' = set (elemTiles a)"
      "indexOf xs' t = indexOf (elemTiles a) ?f" "indexOf xs' ?f = ?i"
      "\<forall>u. u \<noteq> t \<and> u \<noteq> ?f \<longrightarrow> indexOf xs' u = indexOf (elemTiles a) u"
    by blast
  have "bubbleTile t (a, fx) = Inr (a\<lparr>elemTiles := xs'\<rparr>, fx)"
    using inner vis by (simp add: bubbleTile_def tryGetFallingTile_def getIndexToUp_def it sw)
  with p fidx show ?thesis by auto
qed

lemma wellFormed_elemTiles:
  "wellFormed a \<Longrightarrow> distinct xs \<Longrightarrow> length xs = length (elemTiles a)
    \<Longrightarrow> wellFormed (a\<lparr>elemTiles := xs\<rparr>)"
  by (simp add: wellFormed_def)

lemma forEachBubbling_pass:
  "wellFormed a \<Longrightarrow> distinct ts \<Longrightarrow> set ts \<subseteq> set fx \<Longrightarrow> distinct fx
   \<Longrightarrow> set fx \<subseteq> set (elemTiles a)
   \<Longrightarrow> (\<forall>t\<in>set fx. isHidden (tileStore a t))
   \<Longrightarrow> (\<forall>t\<in>set ts. indexOf (elemTiles a) t < (int k + 1) * cols a)
   \<Longrightarrow> (\<forall>t\<in>set fx - set ts. indexOf (elemTiles a) t < int k * cols a)
   \<Longrightarrow> \<exists>xs' fx'. forEachBubbling ts (a, fx) = Inr (a\<lparr>elemTiles := xs'\<rparr>, fx')
         \<and> distinct xs' \<and> length xs' = length (elemTiles a) \<and> set xs' = set (elemTiles a)
         \<and> distinct fx' \<and> set fx' \<subseteq> set fx
         \<and> (\<forall>t\<in>set fx'. indexOf xs' t < int k * cols a)"
proof (induction ts arbitrary: a fx)
  case Nil
  have "a\<lparr>elemTiles := elemTiles a\<rparr> = a" by simp
  then have "forEachBubbling [] (a, fx) = Inr (a\<lparr>elemTiles := elemTiles a\<rparr>, fx)" by simp
  moreover from Nil.prems have "distinct (elemTiles a)" by (simp add: wellFormed_def)
  moreover from Nil.prems have "\<forall>t\<in>set fx. indexOf (elemTiles a) t < int k * cols a" by simp
  ultimately show ?case using Nil.prems(4) by blast
next
  case (Cons t ts)
  let ?i = "indexOf (elemTiles a) t"
  let ?f = "elemTiles a ! nat (?i - cols a)"
  note wf = Cons.prems(1)
  from Cons.prems have tfx: "t \<in> set fx" and tnot: "t \<notin> set ts" and dts: "distinct ts"
    and sub: "set ts \<subseteq> set fx" by simp_all
  from tfx Cons.prems(5) have mem: "t \<in> set (elemTiles a)" by blast
  from Cons.prems(7) have bt: "?i < (int k + 1) * cols a" by simp
  show ?case
  proof (cases "detectEdgeUp a ?i \<or> isHidden (tileStore a ?f)")
    case True
    from bubbleTile_removes[OF wf mem True]
    have b: "bubbleTile t (a, fx) = Inr (a, removeAll t fx)" .
    have "\<exists>xs' fx'. forEachBubbling ts (a, removeAll t fx) = Inr (a\<lparr>elemTiles := xs'\<rparr>, fx')
         \<and> distinct xs' \<and> length xs' = length (elemTiles a) \<and> set xs' = set (elemTiles a)
         \<and> distinct fx' \<and> set fx' \<subseteq> set (removeAll t fx)
         \<and> (\<forall>t\<in>set fx'. indexOf xs' t < int k * cols a)"
    proof (rule Cons.IH[OF wf dts])
      show "set ts \<subseteq> set (removeAll t fx)" using sub tnot by auto
      show "distinct (removeAll t fx)" using Cons.prems(4) by (simp add: distinct_removeAll)
      show "set (removeAll t fx) \<subseteq> set (elemTiles a)" using Cons.prems(5) by auto
      show "\<forall>t\<in>set (removeAll t fx). isHidden (tileStore a t)" using Cons.prems(6) by auto
      show "\<forall>t\<in>set ts. indexOf (elemTiles a) t < (int k + 1) * cols a" using Cons.prems(7) by simp
      show "\<forall>u\<in>set (removeAll t fx) - set ts. indexOf (elemTiles a) u < int k * cols a"
        using Cons.prems(8) by auto
    qed
    then obtain xs' fx' where
      r: "forEachBubbling ts (a, removeAll t fx) = Inr (a\<lparr>elemTiles := xs'\<rparr>, fx')"
      and p: "distinct xs'" "length xs' = length (elemTiles a)" "set xs' = set (elemTiles a)"
        "distinct fx'" "set fx' \<subseteq> set (removeAll t fx)"
        "\<forall>t\<in>set fx'. indexOf xs' t < int k * cols a" by blast
    have "forEachBubbling (t # ts) (a, fx) = Inr (a\<lparr>elemTiles := xs'\<rparr>, fx')"
      by (simp add: b r)
    moreover from p(5) have "set fx' \<subseteq> set fx" by auto
    ultimately show ?thesis using p by blast
  next
    case False
    then have inner: "\<not> detectEdgeUp a ?i" and vis: "\<not> isHidden (tileStore a ?f)" by simp_all
    from bubbleTile_swaps[OF wf mem inner vis, of fx] obtain xs1 where
      b: "bubbleTile t (a, fx) = Inr (a\<lparr>elemTiles := xs1\<rparr>, fx)"
      and q: "distinct xs1" "length xs1 = length (elemTiles a)" "set xs1 = set (elemTiles a)"
        "indexOf xs1 t = ?i - cols a"
        "\<forall>u. u \<noteq> t \<and> u \<noteq> ?f \<longrightarrow> indexOf xs1 u = indexOf (elemTiles a) u"
      by blast
    let ?a1 = "a\<lparr>elemTiles := xs1\<rparr>"
    have wf1: "wellFormed ?a1" using wf q(1,2) by (rule wellFormed_elemTiles)
    have keep: "indexOf xs1 u = indexOf (elemTiles a) u" if "u \<in> set fx" "u \<noteq> t" for u
    proof -
      from that(1) Cons.prems(6) have "isHidden (tileStore a u)" by blast
      with vis have "u \<noteq> ?f" by auto
      with that(2) q(5) show ?thesis by blast
    qed
    have "\<exists>xs' fx'. forEachBubbling ts (?a1, fx) = Inr (?a1\<lparr>elemTiles := xs'\<rparr>, fx')
         \<and> distinct xs' \<and> length xs' = length (elemTiles ?a1) \<and> set xs' = set (elemTiles ?a1)
         \<and> distinct fx' \<and> set fx' \<subseteq> set fx
         \<and> (\<forall>t\<in>set fx'. indexOf xs' t < int k * cols ?a1)"
    proof (rule Cons.IH[OF wf1 dts sub Cons.prems(4)])
      show "set fx \<subseteq> set (elemTiles ?a1)" using Cons.prems(5) q(3) by simp
      show "\<forall>t\<in>set fx. isHidden (tileStore ?a1 t)" using Cons.prems(6) by simp
      show "\<forall>u\<in>set ts. indexOf (elemTiles ?a1) u < (int k + 1) * cols ?a1"
      proof
        fix u assume u: "u \<in> set ts"
        with tnot sub have "u \<in> set fx" "u \<noteq> t" by auto
        from keep[OF this] Cons.prems(7) u show "indexOf (elemTiles ?a1) u < (int k + 1) * cols ?a1"
          by simp
      qed
      show "\<forall>u\<in>set fx - set ts. indexOf (elemTiles ?a1) u < int k * cols ?a1"
      proof
        fix u assume u: "u \<in> set fx - set ts"
        show "indexOf (elemTiles ?a1) u < int k * cols ?a1"
        proof (cases "u = t")
          case True
          from bt have "?i - cols a < int k * cols a" by (simp add: algebra_simps)
          with True q(4) show ?thesis by simp
        next
          case False
          with u have "u \<in> set fx - set (t # ts)" by simp
          with Cons.prems(8) have "indexOf (elemTiles a) u < int k * cols a" by blast
          moreover from u False have "indexOf xs1 u = indexOf (elemTiles a) u" by (intro keep) simp_all
          ultimately show ?thesis by simp
        qed
      qed
    qed
    then obtain xs' fx' where
      r: "forEachBubbling ts (?a1, fx) = Inr (?a1\<lparr>elemTiles := xs'\<rparr>, fx')"
      and p: "distinct xs'" "length xs' = length (elemTiles ?a1)" "set xs' = set (elemTiles ?a1)"
        "distinct fx'" "set fx' \<subseteq> set fx"
        "\<forall>t\<in>set fx'. indexOf xs' t < int k * cols ?a1" by blast
    have "forEachBubbling (t # ts) (a, fx) = Inr (a\<lparr>elemTiles := xs'\<rparr>, fx')"
      by (simp add: b r)
    moreover have "length xs' = length (elemTiles a)" "set xs' = set (elemTiles a)"
      using p(2,3) q(2,3) by simp_all
    moreover have "\<forall>t\<in>set fx'. indexOf xs' t < int k * cols a" using p(6) by simp
    ultimately show ?thesis using p(1,4,5) by blast
  qed
qed

lemma bubbleLoop_passes:
  "wellFormed a \<Longrightarrow> distinct fx \<Longrightarrow> set fx \<subseteq> set (elemTiles a)
   \<Longrightarrow> (\<forall>t\<in>set fx. isHidden (tileStore a t))
   \<Longrightarrow> (\<forall>t\<in>set fx. indexOf (elemTiles a) t < int k * cols a)
   \<Longrightarrow> \<exists>xs'. bubblePasses k (a, fx) = Inr (a\<lparr>elemTiles := xs'\<rparr>, [])
         \<and> bubbleLoop a fx = Some (Inr (a\<lparr>elemTiles := xs'\<rparr>))
         \<and> distinct xs' \<and> length xs' = length (elemTiles a) \<and> set xs' = set (elemTiles a)"
proof (induction k arbitrary: a fx)
  case 0
  have "fx = []"
  proof (rule ccontr)
    assume "fx \<noteq> []"
    then obtain t where t: "t \<in> set fx" by (cases fx) auto
    with "0.prems"(3) have "t \<in> set (elemTiles a)" by blast
    then have "0 \<le> indexOf (elemTiles a) t" by (simp add: indexOf_range)
    with "0.prems"(5) t show False by auto
  qed
  moreover have "a\<lparr>elemTiles := elemTiles a\<rparr> = a" by simp
  moreover have "bubbleLoop a [] = Some (Inr a)" by (subst bubbleLoop.simps) simp
  moreover from "0.prems"(1) have "distinct (elemTiles a)" by (simp add: wellFormed_def)
  ultimately show ?case
    by (intro exI[of _ "elemTiles a"]) simp
next
  case (Suc k)
  show ?case
  proof (cases "fx = []")
    case True
    have "a\<lparr>elemTiles := elemTiles a\<rparr> = a" by simp
    moreover have "bubbleLoop a [] = Some (Inr a)" by (subst bubbleLoop.simps) simp
    moreover from Suc.prems(1) have "distinct (elemTiles a)" by (simp add: wellFormed_def)
    ultimately show ?thesis using True
      by (intro exI[of _ "elemTiles a"]) simp
  next
    case False
    have "\<exists>xs' fx'. forEachBubbling fx (a, fx) = Inr (a\<lparr>elemTiles := xs'\<rparr>, fx')
         \<and> distinct xs' \<and> length xs' = length (elemTiles a) \<and> set xs' = set (elemTiles a)
         \<and> distinct fx' \<and> set fx' \<subseteq> set fx
         \<and> (\<forall>t\<in>set fx'. indexOf xs' t < int k * cols a)"
    proof (rule forEachBubbling_pass[OF Suc.prems(1,2) _ Suc.prems(2,3,4)])
      show "set fx \<subseteq> set fx" by simp
      show "\<forall>t\<in>set fx. indexOf (elemTiles a) t < (int k + 1) * cols a"
        using Suc.prems(5) by (simp add: algebra_simps)
      show "\<forall>t\<in>set fx - set fx. indexOf (elemTiles a) t < int k * cols a" by simp
    qed
    then obtain xs1 fx1 where
      f: "forEachBubbling fx (a, fx) = Inr (a\<lparr>elemTiles := xs1\<rparr>, fx1)"
      and p: "distinct xs1" "length xs1 = length (elemTiles a)" "set xs1 = set (elemTiles a)"
        "distinct fx1" "set fx1 \<subseteq> set fx" "\<forall>t\<in>set fx1. indexOf xs1 t < int k * cols a"
      by blast
    let ?a1 = "a\<lparr>elemTiles := xs1\<rparr>"
    have wf1: "wellFormed ?a1" using Suc.prems(1) p(1,2) by (rule wellFormed_elemTiles)
    have "\<exists>xs'. bubblePasses k (?a1, fx1) = Inr (?a1\<lparr>elemTiles := xs'\<rparr>, [])
         \<and> bubbleLoop ?a1 fx1 = Some (Inr (?a1\<lparr>elemTiles := xs'\<rparr>))
         \<and> distinct xs' \<and> length xs' = length (elemTiles ?a1) \<and> set xs' = set (elemTiles ?a1)"
    proof (rule Suc.IH[OF wf1 p(4)])
      show "set fx1 \<subseteq> set (elemTiles ?a1)" using p(3,5) Suc.prems(3) by auto
      show "\<forall>t\<in>set fx1. isHidden (tileStore ?a1 t)" using p(5) Suc.prems(4) by auto
      show "\<forall>t\<in>set fx1. indexOf (elemTiles ?a1) t < int k * cols ?a1" using p(6) by simp
    qed
    then obtain xs' where
      r: "bubblePasses k (?a1, fx1) = Inr (a\<lparr>elemTiles := xs'\<rparr>, [])"
      and l: "bubbleLoop ?a1 fx1 = Some (Inr (a\<lparr>elemTiles := xs'\<rparr>))"
      and q: "distinct xs'" "length xs' = length (elemTiles a)" "set xs' = set (elemTiles a)"
      using p(2,3) by auto
    have "bubblePasses (Suc k) (a, fx) = Inr (a\<lparr>elemTiles := xs'\<rparr>, [])"
      using False by (simp add: f r)
    moreover have "bubbleLoop a fx = Some (Inr (a\<lparr>elemTiles := xs'\<rparr>))"
      using False by (subst bubbleLoop.simps) (simp add: f l)
    ultimately show ?thesis using q by blast
  qed
qed

lemma newSet_set: "set (newSet xs) = set xs" and newSet_distinct: "distinct (newSet xs)"
  by (simp_all add: newSet_def)


text \<open>
  C6: for an arena and a match whose tiles are on the board and cleared (hidden), the
  loop of \<open>#bubbleMatchToTopEdge\<close> ends without an exception, after at most \<open>rows\<close>
  passes over the working set, and leaves a well-formed arena. Every call of the
  callback on a tile of the board either removes the tile from the working set, the
  board unchanged, or keeps the working set and moves the tile up by one row (its index
  drops by \<open>cols\<close>).
\<close>

theorem bubbleMatchToTopEdge_terminates:
  assumes wf: "wellFormed a"
    and sub: "set (domSortedTiles matchFixture) \<subseteq> set (elemTiles a)"
    and hid: "\<forall>t\<in>set (domSortedTiles matchFixture). isHidden (tileStore a t)"
  shows "(\<exists>a'. bubbleMatchToTopEdge matchFixture a = Some (Inr a')
            \<and> bubblePasses (nat (rows a)) (a, newSet (domSortedTiles matchFixture)) = Inr (a', [])
            \<and> wellFormed a')
       \<and> (\<forall>t fx. t \<in> set (elemTiles a) \<longrightarrow>
             bubbleTile t (a, fx) = Inr (a, removeAll t fx)
           \<or> (\<exists>a1. bubbleTile t (a, fx) = Inr (a1, fx) \<and> wellFormed a1
                 \<and> indexOf (elemTiles a1) t = indexOf (elemTiles a) t - cols a))"
proof
  let ?fx = "newSet (domSortedTiles matchFixture)"
  from wf have r: "0 < rows a" and n: "int (length (elemTiles a)) = rows a * cols a"
    by (simp_all add: wellFormed_def)
  have "\<exists>xs'. bubblePasses (nat (rows a)) (a, ?fx) = Inr (a\<lparr>elemTiles := xs'\<rparr>, [])
         \<and> bubbleLoop a ?fx = Some (Inr (a\<lparr>elemTiles := xs'\<rparr>))
         \<and> distinct xs' \<and> length xs' = length (elemTiles a) \<and> set xs' = set (elemTiles a)"
  proof (rule bubbleLoop_passes[OF wf newSet_distinct])
    show "set ?fx \<subseteq> set (elemTiles a)" using sub by (simp add: newSet_set)
    show "\<forall>t\<in>set ?fx. isHidden (tileStore a t)" using hid by (simp add: newSet_set)
    show "\<forall>t\<in>set ?fx. indexOf (elemTiles a) t < int (nat (rows a)) * cols a"
    proof
      fix t assume "t \<in> set ?fx"
      with sub have "t \<in> set (elemTiles a)" by (auto simp: newSet_set)
      then have "indexOf (elemTiles a) t < int (length (elemTiles a))" by (simp add: indexOf_range)
      with r n show "indexOf (elemTiles a) t < int (nat (rows a)) * cols a" by simp
    qed
  qed
  then obtain xs' where
    p: "bubblePasses (nat (rows a)) (a, ?fx) = Inr (a\<lparr>elemTiles := xs'\<rparr>, [])"
    and l: "bubbleLoop a ?fx = Some (Inr (a\<lparr>elemTiles := xs'\<rparr>))"
    and q: "distinct xs'" "length xs' = length (elemTiles a)" by blast
  have "wellFormed (a\<lparr>elemTiles := xs'\<rparr>)" using wf q by (rule wellFormed_elemTiles)
  with p l show "\<exists>a'. bubbleMatchToTopEdge matchFixture a = Some (Inr a')
            \<and> bubblePasses (nat (rows a)) (a, ?fx) = Inr (a', [])
            \<and> wellFormed a'"
    by (auto simp: bubbleMatchToTopEdge_def)
next
  show "\<forall>t fx. t \<in> set (elemTiles a) \<longrightarrow>
             bubbleTile t (a, fx) = Inr (a, removeAll t fx)
           \<or> (\<exists>a1. bubbleTile t (a, fx) = Inr (a1, fx) \<and> wellFormed a1
                 \<and> indexOf (elemTiles a1) t = indexOf (elemTiles a) t - cols a)"
  proof (intro allI impI)
    fix t fx assume mem: "t \<in> set (elemTiles a)"
    let ?i = "indexOf (elemTiles a) t"
    show "bubbleTile t (a, fx) = Inr (a, removeAll t fx)
           \<or> (\<exists>a1. bubbleTile t (a, fx) = Inr (a1, fx) \<and> wellFormed a1
                 \<and> indexOf (elemTiles a1) t = ?i - cols a)"
    proof (cases "detectEdgeUp a ?i \<or> isHidden (tileStore a (elemTiles a ! nat (?i - cols a)))")
      case True
      from bubbleTile_removes[OF wf mem True] show ?thesis by blast
    next
      case False
      then have i: "\<not> detectEdgeUp a ?i"
        and v: "\<not> isHidden (tileStore a (elemTiles a ! nat (?i - cols a)))" by simp_all
      from bubbleTile_swaps[OF wf mem i v, of fx] obtain xs' where
        b: "bubbleTile t (a, fx) = Inr (a\<lparr>elemTiles := xs'\<rparr>, fx)"
        and q: "distinct xs'" "length xs' = length (elemTiles a)"
          "indexOf xs' t = ?i - cols a" by blast
      have "wellFormed (a\<lparr>elemTiles := xs'\<rparr>)" using wf q(1,2) by (rule wellFormed_elemTiles)
      with b q(3) show ?thesis by auto
    qed
  qed
qed

text \<open>
  In \<open>clearedBottomRow\<close> the three cleared tiles of the bottom row are bubbled to the top
  edge within three passes.
\<close>

theorem bubbleMatchToTopEdge_terminates_witness:
  "wellFormed clearedBottomRow
   \<and> set (domSortedTiles \<lparr>domSortedTiles = [6, 7, 8]\<rparr>) \<subseteq> set (elemTiles clearedBottomRow)
   \<and> isHidden (tileStore clearedBottomRow 6) \<and> isHidden (tileStore clearedBottomRow 7)
   \<and> isHidden (tileStore clearedBottomRow 8)
   \<and> (\<exists>a'. bubbleMatchToTopEdge \<lparr>domSortedTiles = [6, 7, 8]\<rparr> clearedBottomRow = Some (Inr a')
         \<and> bubblePasses 3 (clearedBottomRow, [6, 7, 8]) = Inr (a', [])
         \<and> wellFormed a')"
proof -
  have wf: "wellFormed clearedBottomRow" by code_simp
  have sub: "set (domSortedTiles \<lparr>domSortedTiles = [6, 7, 8]\<rparr>) \<subseteq> set (elemTiles clearedBottomRow)"
    by code_simp
  have h: "isHidden (tileStore clearedBottomRow 6)" "isHidden (tileStore clearedBottomRow 7)"
    "isHidden (tileStore clearedBottomRow 8)" by code_simp+
  then have hid: "\<forall>t\<in>set (domSortedTiles \<lparr>domSortedTiles = [6, 7, 8]\<rparr>). isHidden (tileStore clearedBottomRow t)"
    by simp
  have n: "nat (rows clearedBottomRow) = 3" by code_simp
  have s: "newSet (domSortedTiles \<lparr>domSortedTiles = [6, 7, 8]\<rparr>) = [6, 7, 8]" by code_simp
  note t = bubbleMatchToTopEdge_terminates[OF wf sub hid, THEN conjunct1, unfolded n s]
  show ?thesis by (intro conjI wf sub h t)
qed


text \<open>
  C1, as the code has it: the callback of the bubbling loop, called with a tile of the
  board, removes the tile from the working set and leaves the board as it is when the
  tile is at the top edge or the tile directly above it is hidden; it does not keep the
  tile for a later pass. When the tile is not at the top edge and the tile directly
  above it is visible, the two tiles change places and the working set stays as it is.
\<close>

theorem bubbleTile_removes_or_swaps:
  assumes wf: "wellFormed a" and mem: "t \<in> set (elemTiles a)"
  shows "(detectEdgeUp a (indexOf (elemTiles a) t)
            \<or> isHidden (tileStore a (elemTiles a ! nat (indexOf (elemTiles a) t - cols a)))
          \<longrightarrow> bubbleTile t (a, fx) = Inr (a, removeAll t fx))
       \<and> (\<not> detectEdgeUp a (indexOf (elemTiles a) t)
            \<and> \<not> isHidden (tileStore a (elemTiles a ! nat (indexOf (elemTiles a) t - cols a)))
          \<longrightarrow> (\<exists>a'. bubbleTile t (a, fx) = Inr (a', fx)
                 \<and> tileStore a' = tileStore a
                 \<and> indexOf (elemTiles a') t = indexOf (elemTiles a) t - cols a
                 \<and> indexOf (elemTiles a') (elemTiles a ! nat (indexOf (elemTiles a) t - cols a))
                     = indexOf (elemTiles a) t))"
proof (intro conjI impI)
  assume "detectEdgeUp a (indexOf (elemTiles a) t)
            \<or> isHidden (tileStore a (elemTiles a ! nat (indexOf (elemTiles a) t - cols a)))"
  then show "bubbleTile t (a, fx) = Inr (a, removeAll t fx)"
    by (rule bubbleTile_removes[OF wf mem])
next
  let ?i = "indexOf (elemTiles a) t"
  assume "\<not> detectEdgeUp a ?i \<and> \<not> isHidden (tileStore a (elemTiles a ! nat (?i - cols a)))"
  then have i: "\<not> detectEdgeUp a ?i"
    and v: "\<not> isHidden (tileStore a (elemTiles a ! nat (?i - cols a)))" by simp_all
  from bubbleTile_swaps[OF wf mem i v, of fx] obtain xs' where
    b: "bubbleTile t (a, fx) = Inr (a\<lparr>elemTiles := xs'\<rparr>, fx)"
    and q: "indexOf xs' t = ?i - cols a" "indexOf xs' (elemTiles a ! nat (?i - cols a)) = ?i"
    by blast
  show "\<exists>a'. bubbleTile t (a, fx) = Inr (a', fx)
                 \<and> tileStore a' = tileStore a
                 \<and> indexOf (elemTiles a') t = ?i - cols a
                 \<and> indexOf (elemTiles a') (elemTiles a ! nat (?i - cols a)) = ?i"
    using b q by (intro exI[of _ "a\<lparr>elemTiles := xs'\<rparr>"]) simp
qed

text \<open>
  Both cases happen: in \<open>clearedColumn\<close> the tile at index 1 lies under a hidden tile and
  is removed from the working set; in \<open>clearedBottomRow\<close> the tile at index 6 lies under
  a visible tile, moves up to index 3 and stays in the working set.
\<close>

theorem bubbleTile_removes_or_swaps_witness:
  "wellFormed clearedColumn \<and> 1 \<in> set (elemTiles clearedColumn)
   \<and> isHidden (tileStore clearedColumn
        (elemTiles clearedColumn ! nat (indexOf (elemTiles clearedColumn) 1 - cols clearedColumn)))
   \<and> bubbleTile 1 (clearedColumn, [0, 1, 2]) = Inr (clearedColumn, removeAll 1 [0, 1, 2])
   \<and> wellFormed clearedBottomRow \<and> 6 \<in> set (elemTiles clearedBottomRow)
   \<and> \<not> detectEdgeUp clearedBottomRow (indexOf (elemTiles clearedBottomRow) 6)
   \<and> \<not> isHidden (tileStore clearedBottomRow
        (elemTiles clearedBottomRow ! nat (indexOf (elemTiles clearedBottomRow) 6 - cols clearedBottomRow)))
   \<and> (\<exists>a'. bubbleTile 6 (clearedBottomRow, [6, 7, 8]) = Inr (a', [6, 7, 8])
          \<and> tileStore a' = tileStore clearedBottomRow
          \<and> indexOf (elemTiles a') 6 = indexOf (elemTiles clearedBottomRow) 6 - cols clearedBottomRow
          \<and> indexOf (elemTiles a')
               (elemTiles clearedBottomRow ! nat (indexOf (elemTiles clearedBottomRow) 6 - cols clearedBottomRow))
              = indexOf (elemTiles clearedBottomRow) 6)"
proof -
  have wf1: "wellFormed clearedColumn" by code_simp
  have m1: "1 \<in> set (elemTiles clearedColumn)" by code_simp
  have h1: "isHidden (tileStore clearedColumn
        (elemTiles clearedColumn ! nat (indexOf (elemTiles clearedColumn) 1 - cols clearedColumn)))"
    by code_simp
  have r: "bubbleTile 1 (clearedColumn, [0, 1, 2]) = Inr (clearedColumn, removeAll 1 [0, 1, 2])"
    using bubbleTile_removes_or_swaps[OF wf1 m1, of "[0, 1, 2]", THEN conjunct1] h1 by blast
  have wf2: "wellFormed clearedBottomRow" by code_simp
  have m2: "6 \<in> set (elemTiles clearedBottomRow)" by code_simp
  have e2: "\<not> detectEdgeUp clearedBottomRow (indexOf (elemTiles clearedBottomRow) 6)" by code_simp
  have v2: "\<not> isHidden (tileStore clearedBottomRow
        (elemTiles clearedBottomRow ! nat (indexOf (elemTiles clearedBottomRow) 6 - cols clearedBottomRow)))"
    by code_simp
  note s = bubbleTile_removes_or_swaps[OF wf2 m2, of "[6, 7, 8]", THEN conjunct2, rule_format, OF conjI, OF e2 v2]
  show ?thesis by (intro conjI wf1 m1 h1 r wf2 m2 e2 v2 s)
qed

text \<open>
  C1 as the spec states it fails in \<open>clearedColumn\<close>: the tile at index 1 is in the
  working set, is not at the top edge and has a hidden tile directly above it, and the
  callback removes it from the working set instead of keeping it for a later pass; the
  first pass empties the whole working set.
\<close>

theorem hidden_above_retried_counterexample:
  "(1::ref) \<in> set [0, 1, 2]
   \<and> \<not> detectEdgeUp clearedColumn (indexOf (elemTiles clearedColumn) 1)
   \<and> isHidden (tileStore clearedColumn
        (elemTiles clearedColumn ! nat (indexOf (elemTiles clearedColumn) 1 - cols clearedColumn)))
   \<and> bubbleTile 1 (clearedColumn, [0, 1, 2]) = Inr (clearedColumn, [0, 2])
   \<and> (1::ref) \<notin> set [0, 2]
   \<and> forEachBubbling [0, 1, 2] (clearedColumn, [0, 1, 2]) = Inr (clearedColumn, [])"
proof -
  have wf: "wellFormed clearedColumn" by code_simp
  have m: "0 \<in> set (elemTiles clearedColumn)" "1 \<in> set (elemTiles clearedColumn)"
    "2 \<in> set (elemTiles clearedColumn)" by code_simp+
  have e: "\<not> detectEdgeUp clearedColumn (indexOf (elemTiles clearedColumn) 1)" by code_simp
  have e0: "detectEdgeUp clearedColumn (indexOf (elemTiles clearedColumn) 0)" by code_simp
  have h1: "isHidden (tileStore clearedColumn
        (elemTiles clearedColumn ! nat (indexOf (elemTiles clearedColumn) 1 - cols clearedColumn)))"
    by code_simp
  have h2: "isHidden (tileStore clearedColumn
        (elemTiles clearedColumn ! nat (indexOf (elemTiles clearedColumn) 2 - cols clearedColumn)))"
    by code_simp
  have b0: "bubbleTile 0 (clearedColumn, fx) = Inr (clearedColumn, removeAll 0 fx)" for fx
    using e0 by (intro bubbleTile_removes[OF wf m(1)]) simp
  have b1: "bubbleTile 1 (clearedColumn, fx) = Inr (clearedColumn, removeAll 1 fx)" for fx
    using h1 by (intro bubbleTile_removes[OF wf m(2)]) simp
  have b2: "bubbleTile 2 (clearedColumn, fx) = Inr (clearedColumn, removeAll 2 fx)" for fx
    using h2 by (intro bubbleTile_removes[OF wf m(3)]) simp
  have p: "forEachBubbling [0, 1, 2] (clearedColumn, [0, 1, 2]) = Inr (clearedColumn, [])"
    by (simp add: b0 b1 [unfolded One_nat_def] b2)
  have q: "bubbleTile 1 (clearedColumn, [0, 1, 2]) = Inr (clearedColumn, [0, 2])"
    by (simp add: b1 [unfolded One_nat_def])
  have i: "(1::ref) \<in> set [0, 1, 2]" and o: "(1::ref) \<notin> set [0, 2]" by simp_all
  show ?thesis by (intro conjI i e h1 q o p)
qed

section \<open>The selection through clicks and timeouts\<close>

lemma manage_intends_swap:
  assumes "manageAndValidateSelection c a = (Some d, a1)"
  shows "\<exists>p. elemPickedTile a = Some p \<and> p \<noteq> c \<and> elemTargetTile a = None
     \<and> tileType (tileStore a p) \<noteq> tileType (tileStore a c)
     \<and> isSecondTileOnSide a c = Some d \<and> a1 = a\<lparr>elemTargetTile := Some c\<rparr>"
  using assms
  by (cases "elemPickedTile a"; cases "elemTargetTile a")
     (auto simp: manageAndValidateSelection_def Let_def split: if_splits)

lemma onlyTilesMoved_refl: "onlyTilesMoved a a"
  by (simp add: onlyTilesMoved_def)

lemma onlyTilesMoved_trans: "onlyTilesMoved a b \<Longrightarrow> onlyTilesMoved b c \<Longrightarrow> onlyTilesMoved a c"
  by (cases a; cases b; cases c) (simp add: onlyTilesMoved_def)

lemma arenaAfter_simps [simp]: "arenaAfter (Inl (e, a)) = a" "arenaAfter (Inr a) = a"
  by (simp_all add: arenaAfter_def)

lemma swapTiles_frame: "onlyTilesMoved a (arenaAfter (swapTiles t1 t2 a))"
  by (auto simp: swapTiles_def Let_def onlyTilesMoved_def split: option.splits)

lemma bubbleTile_frame:
  "bubbleTile t (a, fx) = Inl (e, a') \<Longrightarrow> onlyTilesMoved a a'"
  "bubbleTile t (a, fx) = Inr (a', fx') \<Longrightarrow> onlyTilesMoved a a'"
proof -
  have "onlyTilesMoved a a'" if "bubbleTile t (a, fx) = Inl (e, a') \<or> bubbleTile t (a, fx) = Inr (a', fx')"
  proof (cases "tryGetFallingTile a (indexOf (elemTiles a) t)")
    case (Inl x)
    with that show ?thesis by (auto simp: bubbleTile_def onlyTilesMoved_refl)
  next
    case (Inr o1)
    show ?thesis
    proof (cases o1)
      case None
      with that Inr show ?thesis by (auto simp: bubbleTile_def onlyTilesMoved_refl)
    next
      case (Some f)
      from that Inr Some have "arenaAfter (swapTiles t f a) = a'"
        by (auto simp: bubbleTile_def split: sum.splits)
      with swapTiles_frame[where a = a and ?t1.0 = t and ?t2.0 = f] show ?thesis by simp
    qed
  qed
  then show "bubbleTile t (a, fx) = Inl (e, a') \<Longrightarrow> onlyTilesMoved a a'"
    "bubbleTile t (a, fx) = Inr (a', fx') \<Longrightarrow> onlyTilesMoved a a'" by blast+
qed

lemma forEachBubbling_frame:
  "(forEachBubbling ts (a, fx) = Inl (e, a') \<longrightarrow> onlyTilesMoved a a')
   \<and> (forEachBubbling ts (a, fx) = Inr (a', fx') \<longrightarrow> onlyTilesMoved a a')"
proof (induction ts arbitrary: a fx)
  case Nil
  then show ?case by (simp add: onlyTilesMoved_refl)
next
  case (Cons t ts)
  show ?case
  proof (cases "bubbleTile t (a, fx)")
    case (Inl ea)
    obtain e1 a1 where ea: "ea = (e1, a1)" by (cases ea)
    from bubbleTile_frame(1)[of t a fx e1 a1] Inl ea show ?thesis by auto
  next
    case (Inr st)
    obtain a1 fx1 where st: "st = (a1, fx1)" by (cases st)
    from bubbleTile_frame(2)[of t a fx a1 fx1] Inr st have m: "onlyTilesMoved a a1" by simp
    from Cons.IH[of a1 fx1] m show ?thesis
      by (auto simp: Inr st intro: onlyTilesMoved_trans)
  qed
qed

lemma bubbleLoop_frame:
  assumes "bubbleLoop a fx = Some r"
  shows "onlyTilesMoved a (arenaAfter r)"
  using assms
proof (rule bubbleLoop.raw_induct[where P = "\<lambda>a fx r. onlyTilesMoved a (arenaAfter r)", rotated])
  fix loop :: "GameArena \<Rightarrow> ref list \<Rightarrow> outcome option" and b gx q
  assume IH: "\<And>a fx r. loop a fx = Some r \<Longrightarrow> onlyTilesMoved a (arenaAfter r)"
    and eq: "(if gx = [] then Some (Inr b)
      else case forEachBubbling gx (b, gx) of
           Inl ea \<Rightarrow> Some (Inl ea) | Inr st \<Rightarrow> loop (fst st) (snd st)) = Some q"
  show "onlyTilesMoved b (arenaAfter q)"
  proof (cases "gx = []")
    case True
    with eq show ?thesis by (auto simp: onlyTilesMoved_refl)
  next
    case False
    show ?thesis
    proof (cases "forEachBubbling gx (b, gx)")
      case (Inl ea)
      obtain e1 a1 where ea: "ea = (e1, a1)" by (cases ea)
      from forEachBubbling_frame[of gx b gx e1 a1] Inl ea eq False show ?thesis
        by auto
    next
      case (Inr st)
      obtain a1 fx1 where st: "st = (a1, fx1)" by (cases st)
      from forEachBubbling_frame[of gx b gx _ a1 fx1] Inr st have m: "onlyTilesMoved b a1" by simp
      from eq False Inr st have "loop a1 fx1 = Some q" by simp
      from IH[OF this] m show ?thesis by (rule onlyTilesMoved_trans[rotated])
    qed
  qed
qed

lemma selectionInv_moved: "selectionInv ty a \<Longrightarrow> onlyTilesMoved a a' \<Longrightarrow> selectionInv ty a'"
  by (cases a; cases a') (simp add: selectionInv_def onlyTilesMoved_def)

lemma hideMatch_fields:
  "elemPickedTile (hideMatch m a) = elemPickedTile a"
  "elemTargetTile (hideMatch m a) = elemTargetTile a"
  "tileType (tileStore (hideMatch m a) t) = tileType (tileStore a t)"
  "elemTiles (hideMatch m a) = elemTiles a"
  "rows (hideMatch m a) = rows a" "cols (hideMatch m a) = cols a"
proof -
  have "elemPickedTile (fold setHidden ts a) = elemPickedTile a
      \<and> elemTargetTile (fold setHidden ts a) = elemTargetTile a
      \<and> tileType (tileStore (fold setHidden ts a) t) = tileType (tileStore a t)
      \<and> elemTiles (fold setHidden ts a) = elemTiles a
      \<and> rows (fold setHidden ts a) = rows a \<and> cols (fold setHidden ts a) = cols a" for ts
    by (induction ts arbitrary: a) (simp_all add: setHidden_def)
  then show "elemPickedTile (hideMatch m a) = elemPickedTile a"
    "elemTargetTile (hideMatch m a) = elemTargetTile a"
    "tileType (tileStore (hideMatch m a) t) = tileType (tileStore a t)"
    "elemTiles (hideMatch m a) = elemTiles a"
    "rows (hideMatch m a) = rows a" "cols (hideMatch m a) = cols a"
    by (simp_all add: hideMatch_def)
qed

lemma selectionInv_manage:
  assumes "selectionInv ty a"
  shows "selectionInv ty (snd (manageAndValidateSelection c a))"
  using assms
  by (cases "elemPickedTile a"; cases "elemTargetTile a")
     (auto simp: manageAndValidateSelection_def Let_def selectionInv_def
       resetUserSelection_def resetUserSelectionWithNewPicked_def split: if_splits)

lemma selectionInv_success:
  assumes i: "selectionInv ty a" and h: "handleUserSuccessSelection m a = Some r"
  shows "selectionInv ty (arenaAfter r)"
proof -
  have "selectionInv ty (hideMatch m (resetUserSelection a))"
    using i by (simp add: selectionInv_def hideMatch_fields resetUserSelection_def)
  moreover from h have "onlyTilesMoved (hideMatch m (resetUserSelection a)) (arenaAfter r)"
    by (simp add: handleUserSuccessSelection_def bubbleMatchToTopEdge_def bubbleLoop_frame)
  ultimately show ?thesis by (rule selectionInv_moved)
qed

lemma swapUserSelectedTiles_frame: "onlyTilesMoved a (arenaAfter (swapUserSelectedTiles a))"
  using swapTiles_frame[where a = a]
  by (auto simp: swapUserSelectedTiles_def onlyTilesMoved_refl split: option.splits)

lemma selectionInv_click:
  assumes i: "selectionInv ty a" and h: "tileClickHandler c a = Some r"
  shows "selectionInv ty (arenaAfter r)"
proof -
  obtain x a1 where m: "manageAndValidateSelection c a = (x, a1)" by (cases "manageAndValidateSelection c a")
  from selectionInv_manage[OF i, of c] m have i1: "selectionInv ty a1" by simp
  show ?thesis
  proof (cases x)
    case None
    with h m i1 show ?thesis by (auto simp: tileClickHandler_def)
  next
    case (Some d)
    have i2: "selectionInv ty (arenaAfter (swapUserSelectedTiles a1))"
      using i1 swapUserSelectedTiles_frame by (rule selectionInv_moved)
    show ?thesis
    proof (cases "swapUserSelectedTiles a1")
      case (Inl ea)
      with h m Some i2 show ?thesis by (simp add: tileClickHandler_def)
    next
      case (Inr a2)
      with i2 have i2': "selectionInv ty a2" by simp
      then have bad: "selectionInv ty (handleUserBadSelection a2)"
        by (simp add: selectionInv_def handleUserBadSelection_def)
      from h m Some Inr i2' bad selectionInv_success[OF i2'] show ?thesis
        by (auto simp: tileClickHandler_def split: option.splits sum.splits)
    qed
  qed
qed

lemma selectionInv_timeout:
  assumes i: "selectionInv ty a"
  shows "selectionInv ty (arenaAfter (badSwapTimeoutCallback a))"
proof (cases "swapUserSelectedTiles a")
  case (Inl ea)
  with selectionInv_moved[OF i swapUserSelectedTiles_frame] show ?thesis
    by (simp add: badSwapTimeoutCallback_def)
next
  case (Inr a')
  with selectionInv_moved[OF i swapUserSelectedTiles_frame] have "selectionInv ty a'"
    by simp
  then have "selectionInv ty (resetUserSelection a')"
    by (simp add: selectionInv_def resetUserSelection_def)
  with Inr show ?thesis by (simp add: badSwapTimeoutCallback_def)
qed

lemma selectionInv_dispatch:
  assumes i: "selectionInv ty a" and h: "dispatch e a = Some r"
  shows "selectionInv ty (arenaAfter r)"
proof (cases e)
  case (Click c)
  with h i show ?thesis by (simp add: selectionInv_click)
next
  case BadSwapTimeout
  have "selectionInv ty (a\<lparr>pendingBadSwapTimeouts := pendingBadSwapTimeouts a - 1\<rparr>)"
    using i by (simp add: selectionInv_def)
  from selectionInv_timeout[OF this] h i BadSwapTimeout show ?thesis
    by (auto split: if_splits)
qed

lemma selectionInv_runEvents:
  "selectionInv ty a \<Longrightarrow> runEvents es a = Some a' \<Longrightarrow> selectionInv ty a'"
proof (induction es arbitrary: a)
  case Nil
  then show ?case by simp
next
  case (Cons e es)
  then show ?case
    by (auto split: option.splits dest: selectionInv_dispatch)
qed

lemma swapUserSelectedTiles_ok:
  assumes wf: "wellFormed a" and p: "elemPickedTile a = Some p" and t: "elemTargetTile a = Some t"
    and mp: "p \<in> set (elemTiles a)" and mt: "t \<in> set (elemTiles a)" and ne: "p \<noteq> t"
  shows "\<exists>xs'. swapUserSelectedTiles a = Inr (a\<lparr>elemTiles := xs'\<rparr>)
     \<and> wellFormed (a\<lparr>elemTiles := xs'\<rparr>) \<and> set xs' = set (elemTiles a)"
proof -
  from wf have d: "distinct (elemTiles a)" by (simp add: wellFormed_def)
  from swapTiles_exchange[OF d mp mt ne] obtain xs' where
    s: "swapTiles p t a = Inr (a\<lparr>elemTiles := xs'\<rparr>)"
    and q: "distinct xs'" "length xs' = length (elemTiles a)" "set xs' = set (elemTiles a)"
    by blast
  have "swapUserSelectedTiles a = Inr (a\<lparr>elemTiles := xs'\<rparr>)"
    by (simp add: swapUserSelectedTiles_def p t s)
  moreover have "wellFormed (a\<lparr>elemTiles := xs'\<rparr>)" using wf q(1,2) by (rule wellFormed_elemTiles)
  ultimately show ?thesis using q(3) by blast
qed

lemma detectMatchXY_returns:
  "wellFormed a \<Longrightarrow> t \<in> set (elemTiles a) \<Longrightarrow> \<exists>m. detectMatchXY a t = Some (Inr m)"
  using detectMatchXY_walks[of a t] by blast

lemma calculateMatchByUserSelection_returns:
  assumes wf: "wellFormed a" and p: "elemPickedTile a = Some p" and t: "elemTargetTile a = Some t"
    and mp: "p \<in> set (elemTiles a)" and mt: "t \<in> set (elemTiles a)"
  shows "\<exists>combo. calculateMatchByUserSelection a = Some (Inr combo)"
proof -
  from detectMatchXY_returns[OF wf mp] obtain m1 where m1: "detectMatchXY a p = Some (Inr m1)" by blast
  from detectMatchXY_returns[OF wf mt] obtain m2 where m2: "detectMatchXY a t = Some (Inr m2)" by blast
  show ?thesis
    by (simp add: calculateMatchByUserSelection_def detectMatchOfSelected_def p t m1 m2)
qed


section \<open>Play on a well-formed board always returns\<close>

lemma detectMatchXY_on_board:
  assumes wf: "wellFormed a" and mem: "t \<in> set (elemTiles a)"
    and det: "detectMatchXY a t = Some (Inr m)"
  shows "set (matchTiles m) \<subseteq> set (elemTiles a)"
proof -
  from detectMatchXY_walks[OF wf mem] obtain l u r d where
    l: "seekInDirection a Left (tileType (tileStore a t)) (indexOf (elemTiles a) t) = Some (Inr l)"
    and u: "seekInDirection a Up (tileType (tileStore a t)) (indexOf (elemTiles a) t) = Some (Inr u)"
    and r: "seekInDirection a Right (tileType (tileStore a t)) (indexOf (elemTiles a) t) = Some (Inr r)"
    and d: "seekInDirection a Down (tileType (tileStore a t)) (indexOf (elemTiles a) t) = Some (Inr d)"
    and res: "detectMatchXY a t = Some (Inr
         (if (l \<noteq> [] \<or> r \<noteq> []) \<and> 3 \<le> length (l @ [t] @ r)
             \<or> (u \<noteq> [] \<or> d \<noteq> []) \<and> 3 \<le> length (u @ [t] @ d)
          then Some \<lparr>alongX = (if l \<noteq> [] \<or> r \<noteq> [] then Some (l @ [t] @ r) else None),
                      alongY = (if u \<noteq> [] \<or> d \<noteq> [] then Some (u @ [t] @ d) else None)\<rparr>
          else None))"
    by blast
  note sub = seek_walk_indices(2)[OF wf mem l] seek_walk_indices(2)[OF wf mem u]
    seek_walk_indices(2)[OF wf mem r] seek_walk_indices(2)[OF wf mem d]
  from res det have "m = (if (l \<noteq> [] \<or> r \<noteq> []) \<and> 3 \<le> length (l @ [t] @ r)
             \<or> (u \<noteq> [] \<or> d \<noteq> []) \<and> 3 \<le> length (u @ [t] @ d)
          then Some \<lparr>alongX = (if l \<noteq> [] \<or> r \<noteq> [] then Some (l @ [t] @ r) else None),
                      alongY = (if u \<noteq> [] \<or> d \<noteq> [] then Some (u @ [t] @ d) else None)\<rparr>
          else None)" by simp
  then have "set (matchTiles m) \<subseteq> set l \<union> set u \<union> set r \<union> set d \<union> {t}"
    by (auto simp: matchTiles_def axisTiles_def split: if_splits)
  with sub mem show ?thesis by blast
qed

lemma newComboMatchInfo_tiles:
  "set (domSortedTiles (newComboMatchInfo a m1 m2)) = set (matchTiles m1) \<union> set (matchTiles m2)"
  by (simp add: newComboMatchInfo_def)

lemma fold_setHidden_hidden:
  "isHidden (tileStore (fold setHidden ts a) t) = (t \<in> set ts \<or> isHidden (tileStore a t))"
  by (induction ts arbitrary: a) (auto simp: setHidden_def)

lemma hideMatch_hidden:
  "t \<in> set (domSortedTiles m) \<Longrightarrow> isHidden (tileStore (hideMatch m a) t)"
  by (simp add: hideMatch_def fold_setHidden_hidden)

lemma handleUserSuccessSelection_returns:
  assumes wf: "wellFormed a" and sub: "set (domSortedTiles m) \<subseteq> set (elemTiles a)"
  shows "\<exists>xs'. handleUserSuccessSelection m a
        = Some (Inr ((hideMatch m (resetUserSelection a))\<lparr>elemTiles := xs'\<rparr>))
     \<and> distinct xs' \<and> length xs' = length (elemTiles a) \<and> set xs' = set (elemTiles a)"
proof -
  let ?h = "hideMatch m (resetUserSelection a)"
  let ?fx = "newSet (domSortedTiles m)"
  have e: "elemTiles ?h = elemTiles a" "rows ?h = rows a" "cols ?h = cols a"
    by (simp_all add: hideMatch_fields resetUserSelection_def)
  have wfh: "wellFormed ?h" using wf by (simp add: wellFormed_def e)
  from wf have r: "0 < rows a" and n: "int (length (elemTiles a)) = rows a * cols a"
    by (simp_all add: wellFormed_def)
  have "\<exists>xs'. bubblePasses (nat (rows a)) (?h, ?fx) = Inr (?h\<lparr>elemTiles := xs'\<rparr>, [])
         \<and> bubbleLoop ?h ?fx = Some (Inr (?h\<lparr>elemTiles := xs'\<rparr>))
         \<and> distinct xs' \<and> length xs' = length (elemTiles ?h) \<and> set xs' = set (elemTiles ?h)"
  proof (rule bubbleLoop_passes[OF wfh newSet_distinct])
    show "set ?fx \<subseteq> set (elemTiles ?h)" using sub by (simp add: newSet_set e)
    show "\<forall>t\<in>set ?fx. isHidden (tileStore ?h t)" by (simp add: newSet_set hideMatch_hidden)
    show "\<forall>t\<in>set ?fx. indexOf (elemTiles ?h) t < int (nat (rows a)) * cols ?h"
    proof
      fix t assume "t \<in> set ?fx"
      with sub have "t \<in> set (elemTiles a)" by (auto simp: newSet_set)
      then have "indexOf (elemTiles a) t < int (length (elemTiles a))" by (simp add: indexOf_range)
      with r n show "indexOf (elemTiles ?h) t < int (nat (rows a)) * cols ?h" by (simp add: e)
    qed
  qed
  then show ?thesis
    by (auto simp: handleUserSuccessSelection_def bubbleMatchToTopEdge_def e)
qed

lemma playInv_moved:
  "playInv B ty a \<Longrightarrow> distinct xs \<Longrightarrow> length xs = length (elemTiles a) \<Longrightarrow> set xs = set (elemTiles a)
    \<Longrightarrow> playInv B ty (a\<lparr>elemTiles := xs\<rparr>)"
  by (simp add: playInv_def wellFormed_def selectionInv_def)

lemma playInv_picked_target_differ:
  "playInv B ty a \<Longrightarrow> elemPickedTile a = Some p \<Longrightarrow> elemTargetTile a = Some t \<Longrightarrow> p \<noteq> t"
  by (auto simp: playInv_def selectionInv_def)

lemma tileClickHandler_returns:
  assumes inv: "playInv B ty a" and c: "c \<in> B"
  shows "\<exists>a'. tileClickHandler c a = Some (Inr a') \<and> playInv B ty a'"
proof -
  from inv have wf: "wellFormed a" and b: "set (elemTiles a) = B" and si: "selectionInv ty a"
    by (simp_all add: playInv_def)
  obtain x a1 where m: "manageAndValidateSelection c a = (x, a1)"
    by (cases "manageAndValidateSelection c a")
  have i1: "playInv B ty a1"
  proof -
    from selectionInv_manage[OF si, of c] m have "selectionInv ty a1" by simp
    moreover from m inv c have "wellFormed a1 \<and> set (elemTiles a1) = B
        \<and> (case elemPickedTile a1 of None \<Rightarrow> True | Some p \<Rightarrow> p \<in> B)
        \<and> (case elemTargetTile a1 of None \<Rightarrow> True | Some t \<Rightarrow> t \<in> B)"
      by (cases "elemPickedTile a"; cases "elemTargetTile a")
         (auto simp: manageAndValidateSelection_def Let_def playInv_def wellFormed_def
           resetUserSelection_def resetUserSelectionWithNewPicked_def split: if_splits)
    ultimately show ?thesis by (simp add: playInv_def)
  qed
  show ?thesis
  proof (cases x)
    case None
    with m i1 show ?thesis by (simp add: tileClickHandler_def)
  next
    case (Some d)
    from manage_intends_swap[OF m[unfolded Some]] obtain p where
      p: "elemPickedTile a = Some p" and ne: "p \<noteq> c" and a1: "a1 = a\<lparr>elemTargetTile := Some c\<rparr>"
      by blast
    from inv p have mp: "p \<in> B" by (simp add: playInv_def)
    from i1 have wf1: "wellFormed a1" and b1: "set (elemTiles a1) = B" by (simp_all add: playInv_def)
    have s1: "elemPickedTile a1 = Some p" "elemTargetTile a1 = Some c"
      "p \<in> set (elemTiles a1)" "c \<in> set (elemTiles a1)"
      using p mp c b1 by (simp_all add: a1)
    from swapUserSelectedTiles_ok[OF wf1 s1 ne] obtain xs' where
      sw: "swapUserSelectedTiles a1 = Inr (a1\<lparr>elemTiles := xs'\<rparr>)"
      and wf2: "wellFormed (a1\<lparr>elemTiles := xs'\<rparr>)" and st: "set xs' = set (elemTiles a1)"
      by blast
    let ?a2 = "a1\<lparr>elemTiles := xs'\<rparr>"
    have i2: "playInv B ty ?a2"
      using i1 wf2 st by (simp add: playInv_def selectionInv_def)
    have s2: "elemPickedTile ?a2 = Some p" "elemTargetTile ?a2 = Some c"
      "p \<in> set (elemTiles ?a2)" "c \<in> set (elemTiles ?a2)"
      using s1 st by simp_all
    from detectMatchXY_returns[OF wf2 s2(3)] obtain m1 where
      m1: "detectMatchXY ?a2 p = Some (Inr m1)" by blast
    from detectMatchXY_returns[OF wf2 s2(4)] obtain m2 where
      m2: "detectMatchXY ?a2 c = Some (Inr m2)" by blast
    have calc: "calculateMatchByUserSelection ?a2
        = Some (Inr (if m1 \<noteq> None \<or> m2 \<noteq> None then Some (newComboMatchInfo ?a2 m1 m2) else None))"
      by (simp add: calculateMatchByUserSelection_def detectMatchOfSelected_def s2(1,2) m1 m2)
    show ?thesis
    proof (cases "m1 \<noteq> None \<or> m2 \<noteq> None")
      case False
      then have "tileClickHandler c a = Some (Inr (handleUserBadSelection ?a2))"
        by (simp add: tileClickHandler_def m Some sw calc)
      moreover have "playInv B ty (handleUserBadSelection ?a2)"
        using i2 by (simp add: playInv_def handleUserBadSelection_def wellFormed_def selectionInv_def)
      ultimately show ?thesis by blast
    next
      case True
      let ?mf = "newComboMatchInfo ?a2 m1 m2"
      let ?h = "hideMatch ?mf (resetUserSelection ?a2)"
      have "set (domSortedTiles ?mf) \<subseteq> set (elemTiles ?a2)"
        using detectMatchXY_on_board[OF wf2 s2(3) m1] detectMatchXY_on_board[OF wf2 s2(4) m2]
        by (simp add: newComboMatchInfo_tiles)
      from handleUserSuccessSelection_returns[OF wf2 this] obtain ys where
        h: "handleUserSuccessSelection ?mf ?a2 = Some (Inr (?h\<lparr>elemTiles := ys\<rparr>))"
        and q: "distinct ys" "length ys = length (elemTiles ?a2)" "set ys = set (elemTiles ?a2)"
        by blast
      have "tileClickHandler c a = Some (Inr (?h\<lparr>elemTiles := ys\<rparr>))"
        using True by (simp add: tileClickHandler_def m Some sw calc h)
      moreover have "playInv B ty ?h"
        using i2 by (simp add: playInv_def wellFormed_def selectionInv_def hideMatch_fields
            resetUserSelection_def)
      then have "playInv B ty (?h\<lparr>elemTiles := ys\<rparr>)"
        using q by (intro playInv_moved) (simp_all add: hideMatch_fields resetUserSelection_def)
      ultimately show ?thesis by blast
    qed
  qed
qed

lemma badSwapTimeoutCallback_playInv:
  assumes i: "playInv B ty a"
  shows "playInv B ty (arenaAfter (badSwapTimeoutCallback a))"
proof (cases "elemPickedTile a")
  case None
  then show ?thesis using i
    by (simp add: badSwapTimeoutCallback_def swapUserSelectedTiles_def)
next
  case (Some p)
  show ?thesis
  proof (cases "elemTargetTile a")
    case None
    then show ?thesis using i Some
      by (simp add: badSwapTimeoutCallback_def swapUserSelectedTiles_def)
  next
    case t: (Some t)
    from i have wf: "wellFormed a" and b: "set (elemTiles a) = B" by (simp_all add: playInv_def)
    from i Some t b have mp: "p \<in> set (elemTiles a)" and mt: "t \<in> set (elemTiles a)"
      by (simp_all add: playInv_def)
    from playInv_picked_target_differ[OF i Some t] have ne: "p \<noteq> t" .
    from swapUserSelectedTiles_ok[OF wf Some t mp mt ne] obtain xs' where
      sw: "swapUserSelectedTiles a = Inr (a\<lparr>elemTiles := xs'\<rparr>)"
      and wf2: "wellFormed (a\<lparr>elemTiles := xs'\<rparr>)" and st: "set xs' = set (elemTiles a)"
      by blast
    have "playInv B ty (resetUserSelection (a\<lparr>elemTiles := xs'\<rparr>))"
      using i wf2 st by (simp add: playInv_def wellFormed_def selectionInv_def resetUserSelection_def)
    then show ?thesis by (simp add: badSwapTimeoutCallback_def sw)
  qed
qed

lemma dispatch_returns:
  assumes inv: "playInv B ty a" and c: "case e of Click c \<Rightarrow> c \<in> B | BadSwapTimeout \<Rightarrow> True"
  shows "\<exists>r. dispatch e a = Some r \<and> playInv B ty (arenaAfter r)"
proof (cases e)
  case (Click t)
  with tileClickHandler_returns[OF inv, of t] c show ?thesis by auto
next
  case BadSwapTimeout
  have "playInv B ty (a\<lparr>pendingBadSwapTimeouts := pendingBadSwapTimeouts a - 1\<rparr>)"
    using inv by (simp add: playInv_def wellFormed_def selectionInv_def)
  from badSwapTimeoutCallback_playInv[OF this] inv BadSwapTimeout show ?thesis by auto
qed

lemma runEvents_returns:
  "playInv (set (elemTiles a0)) ty a \<Longrightarrow> clicksOnBoard a0 es
    \<Longrightarrow> \<exists>a'. runEvents es a = Some a' \<and> playInv (set (elemTiles a0)) ty a'"
proof (induction es arbitrary: a)
  case Nil
  then show ?case by simp
next
  case (Cons e es)
  from Cons.prems(2) have c: "case e of Click c \<Rightarrow> c \<in> set (elemTiles a0) | BadSwapTimeout \<Rightarrow> True"
    and rest: "clicksOnBoard a0 es" by (simp_all add: clicksOnBoard_def)
  from dispatch_returns[OF Cons.prems(1) c] obtain r where
    d: "dispatch e a = Some r" and i: "playInv (set (elemTiles a0)) ty (arenaAfter r)" by blast
  from Cons.IH[OF i rest] d show ?case by simp
qed

text \<open>
  C10: from an arena without selection, every sequence of clicks on tiles of a
  well-formed board and of expiring bad-swap timeouts is handled to its end; and in
  every arena such a sequence reaches, a picked and a target tile that are both set
  differ in type. There a click on another tile that has the type of the picked tile
  ends the click handler at once: the clicked tile is the new picked tile, no target is
  set and no tile is moved. (A click on the picked tile itself clears the selection; it
  sets no target either.)
\<close>

theorem selection_types_differ:
  assumes p0: "elemPickedTile a0 = None" and t0: "elemTargetTile a0 = None"
  shows "(wellFormed a0 \<and> clicksOnBoard a0 es \<longrightarrow> (\<exists>a. runEvents es a0 = Some a))
       \<and> (\<forall>a. runEvents es a0 = Some a \<longrightarrow>
            (\<forall>p t. elemPickedTile a = Some p \<and> elemTargetTile a = Some t
               \<longrightarrow> tileType (tileStore a p) \<noteq> tileType (tileStore a t))
          \<and> (\<forall>c p. elemPickedTile a = Some p \<and> c \<noteq> p
                 \<and> tileType (tileStore a c) = tileType (tileStore a p)
               \<longrightarrow> tileClickHandler c a = Some (Inr (resetUserSelectionWithNewPicked c a))
                 \<and> elemPickedTile (resetUserSelectionWithNewPicked c a) = Some c
                 \<and> elemTargetTile (resetUserSelectionWithNewPicked c a) = None
                 \<and> elemTiles (resetUserSelectionWithNewPicked c a) = elemTiles a)
          \<and> (\<forall>p. elemPickedTile a = Some p
               \<longrightarrow> tileClickHandler p a = Some (Inr (resetUserSelection a))
                 \<and> elemTargetTile (resetUserSelection a) = None))"
proof (intro conjI allI impI)
  let ?ty = "\<lambda>t. tileType (tileStore a0 t)"
  assume "wellFormed a0 \<and> clicksOnBoard a0 es"
  then have "playInv (set (elemTiles a0)) ?ty a0" and c: "clicksOnBoard a0 es"
    using p0 t0 by (simp_all add: playInv_def selectionInv_def)
  from runEvents_returns[OF this] show "\<exists>a. runEvents es a0 = Some a" by blast
next
  let ?ty = "\<lambda>t. tileType (tileStore a0 t)"
  fix a p t
  assume run: "runEvents es a0 = Some a"
    and s: "elemPickedTile a = Some p \<and> elemTargetTile a = Some t"
  have "selectionInv ?ty a0" using p0 t0 by (simp add: selectionInv_def)
  from selectionInv_runEvents[OF this run] s
  show "tileType (tileStore a p) \<noteq> tileType (tileStore a t)"
    by (simp add: selectionInv_def)
next
  fix a :: GameArena and c p
  assume h: "elemPickedTile a = Some p \<and> c \<noteq> p
      \<and> tileType (tileStore a c) = tileType (tileStore a p)"
  then have m: "manageAndValidateSelection c a = (None, resetUserSelectionWithNewPicked c a)"
    by (auto simp: manageAndValidateSelection_def)
  then show "tileClickHandler c a = Some (Inr (resetUserSelectionWithNewPicked c a))"
    by (simp add: tileClickHandler_def)
  show "elemPickedTile (resetUserSelectionWithNewPicked c a) = Some c"
    "elemTargetTile (resetUserSelectionWithNewPicked c a) = None"
    "elemTiles (resetUserSelectionWithNewPicked c a) = elemTiles a"
    by (simp_all add: resetUserSelectionWithNewPicked_def resetUserSelection_def)
next
  fix a :: GameArena and p
  assume "elemPickedTile a = Some p"
  then have "manageAndValidateSelection p a = (None, resetUserSelection a)"
    by (simp add: manageAndValidateSelection_def)
  then show "tileClickHandler p a = Some (Inr (resetUserSelection a))"
    by (simp add: tileClickHandler_def)
  show "elemTargetTile (resetUserSelection a) = None"
    by (simp add: resetUserSelection_def)
qed

text \<open>
  In \<open>twoOfOneType\<close> the clicks on the tiles 0 and 1 select a picked and a target tile
  of the types 1 and 2; the following click on tile 2, of type 1 like the picked tile,
  makes tile 2 the picked tile and leaves no target.
\<close>

theorem selection_types_differ_witness:
  "elemPickedTile twoOfOneType = None \<and> elemTargetTile twoOfOneType = None
   \<and> wellFormed twoOfOneType \<and> clicksOnBoard twoOfOneType [Click 0, Click 1]
   \<and> (\<exists>a. runEvents [Click 0, Click 1] twoOfOneType = Some a
         \<and> elemPickedTile a = Some 0 \<and> elemTargetTile a = Some 1
         \<and> tileType (tileStore a 0) \<noteq> tileType (tileStore a 1)
         \<and> tileType (tileStore a 2) = tileType (tileStore a 0)
         \<and> tileClickHandler 2 a = Some (Inr (resetUserSelectionWithNewPicked 2 a))
         \<and> elemPickedTile (resetUserSelectionWithNewPicked 2 a) = Some 2
         \<and> elemTargetTile (resetUserSelectionWithNewPicked 2 a) = None)"
proof -
  have p0: "elemPickedTile twoOfOneType = None" and t0: "elemTargetTile twoOfOneType = None"
    by code_simp+
  have wf: "wellFormed twoOfOneType" and cl: "clicksOnBoard twoOfOneType [Click 0, Click 1]"
    by code_simp+
  note th = selection_types_differ[OF p0 t0, of "[Click 0, Click 1]"]
  from th[THEN conjunct1] wf cl obtain a where
    run: "runEvents [Click 0, Click 1] twoOfOneType = Some a" by blast
  have "case runEvents [Click 0, Click 1] twoOfOneType of
          None \<Rightarrow> False
        | Some a \<Rightarrow> elemPickedTile a = Some 0 \<and> elemTargetTile a = Some 1
            \<and> tileType (tileStore a 2) = tileType (tileStore a 0)"
    by code_simp
  with run have s: "elemPickedTile a = Some 0" "elemTargetTile a = Some 1"
    and ty: "tileType (tileStore a 2) = tileType (tileStore a 0)"
    by simp_all
  note inv = th[THEN conjunct2, rule_format, OF run]
  from inv[THEN conjunct1, rule_format, of 0 1] s
  have d: "tileType (tileStore a 0) \<noteq> tileType (tileStore a 1)" by simp
  from inv[THEN conjunct2, THEN conjunct1, rule_format, of 0 2] s ty
  have c: "tileClickHandler 2 a = Some (Inr (resetUserSelectionWithNewPicked 2 a))"
    "elemPickedTile (resetUserSelectionWithNewPicked 2 a) = Some 2"
    "elemTargetTile (resetUserSelectionWithNewPicked 2 a) = None" by simp_all
  from run s d ty c have "\<exists>a. runEvents [Click 0, Click 1] twoOfOneType = Some a
         \<and> elemPickedTile a = Some 0 \<and> elemTargetTile a = Some 1
         \<and> tileType (tileStore a 0) \<noteq> tileType (tileStore a 1)
         \<and> tileType (tileStore a 2) = tileType (tileStore a 0)
         \<and> tileClickHandler 2 a = Some (Inr (resetUserSelectionWithNewPicked 2 a))
         \<and> elemPickedTile (resetUserSelectionWithNewPicked 2 a) = Some 2
         \<and> elemTargetTile (resetUserSelectionWithNewPicked 2 a) = None" by blast
  with p0 t0 wf cl show ?thesis by blast
qed

text \<open>
  C9: \<open>#swapUserSelectedTiles\<close> throws the developer error, and changes nothing, when
  the picked or the target tile is not set. When a click on a tile of a well-formed
  arena completes the selection, so that the swap is intended, the swap and the match
  calculation after it return without an exception; when they find no combo the result
  is \<open>null\<close>, and the click handler ends normally with one more bad-swap timeout
  scheduled for the revert.
\<close>

theorem swap_unset_throws_no_combo_reverts:
  "(elemPickedTile a = None \<or> elemTargetTile a = None
      \<longrightarrow> swapUserSelectedTiles a = Inl (DeveloperError, a))
   \<and> (wellFormed a \<and> c \<in> set (elemTiles a)
        \<and> (\<forall>p. elemPickedTile a = Some p \<longrightarrow> p \<in> set (elemTiles a))
        \<and> manageAndValidateSelection c a = (Some d, a1)
      \<longrightarrow> (\<exists>a2 combo. swapUserSelectedTiles a1 = Inr a2
             \<and> calculateMatchByUserSelection a2 = Some (Inr combo)
             \<and> (combo = None \<longrightarrow>
                  tileClickHandler c a = Some (Inr (handleUserBadSelection a2))
                  \<and> pendingBadSwapTimeouts (handleUserBadSelection a2)
                      = Suc (pendingBadSwapTimeouts a))))"
proof (intro conjI impI)
  assume "elemPickedTile a = None \<or> elemTargetTile a = None"
  then show "swapUserSelectedTiles a = Inl (DeveloperError, a)"
    by (auto simp: swapUserSelectedTiles_def split: option.splits)
next
  assume h: "wellFormed a \<and> c \<in> set (elemTiles a)
        \<and> (\<forall>p. elemPickedTile a = Some p \<longrightarrow> p \<in> set (elemTiles a))
        \<and> manageAndValidateSelection c a = (Some d, a1)"
  then have wf: "wellFormed a" and mc: "c \<in> set (elemTiles a)"
    and m: "manageAndValidateSelection c a = (Some d, a1)" by simp_all
  from manage_intends_swap[OF m] obtain p where
    p: "elemPickedTile a = Some p" and ne: "p \<noteq> c" and a1: "a1 = a\<lparr>elemTargetTile := Some c\<rparr>"
    by blast
  from h p have mp: "p \<in> set (elemTiles a)" by simp
  have wf1: "wellFormed a1" using wf by (simp add: a1 wellFormed_def)
  have s1: "elemPickedTile a1 = Some p" "elemTargetTile a1 = Some c"
    "p \<in> set (elemTiles a1)" "c \<in> set (elemTiles a1)"
    using p mp mc by (simp_all add: a1)
  from swapUserSelectedTiles_ok[OF wf1 s1 ne] obtain xs' where
    sw: "swapUserSelectedTiles a1 = Inr (a1\<lparr>elemTiles := xs'\<rparr>)"
    and wf2: "wellFormed (a1\<lparr>elemTiles := xs'\<rparr>)" and st: "set xs' = set (elemTiles a1)"
    by blast
  let ?a2 = "a1\<lparr>elemTiles := xs'\<rparr>"
  have s2: "elemPickedTile ?a2 = Some p" "elemTargetTile ?a2 = Some c"
    "p \<in> set (elemTiles ?a2)" "c \<in> set (elemTiles ?a2)"
    using s1 st by simp_all
  from calculateMatchByUserSelection_returns[OF wf2 s2] obtain combo where
    calc: "calculateMatchByUserSelection ?a2 = Some (Inr combo)" by blast
  have "tileClickHandler c a = Some (Inr (handleUserBadSelection ?a2))" if "combo = None"
    using that by (simp add: tileClickHandler_def m sw calc)
  moreover have "pendingBadSwapTimeouts (handleUserBadSelection ?a2) = Suc (pendingBadSwapTimeouts a)"
    by (simp add: handleUserBadSelection_def a1)
  ultimately show "\<exists>a2 combo. swapUserSelectedTiles a1 = Inr a2
             \<and> calculateMatchByUserSelection a2 = Some (Inr combo)
             \<and> (combo = None \<longrightarrow>
                  tileClickHandler c a = Some (Inr (handleUserBadSelection a2))
                  \<and> pendingBadSwapTimeouts (handleUserBadSelection a2)
                      = Suc (pendingBadSwapTimeouts a))"
    using sw calc by blast
qed

text \<open>
  In \<open>fourTypesPicked\<close> no target is set and the swap throws. The click on tile 1, right
  of the picked tile 0, completes the selection; the swap gives no combo on this board
  of four types, and the click handler ends with the revert scheduled.
\<close>

theorem swap_unset_throws_no_combo_reverts_witness:
  "elemTargetTile fourTypesPicked = None
   \<and> swapUserSelectedTiles fourTypesPicked = Inl (DeveloperError, fourTypesPicked)
   \<and> wellFormed fourTypesPicked \<and> 1 \<in> set (elemTiles fourTypesPicked)
   \<and> elemPickedTile fourTypesPicked = Some 0 \<and> 0 \<in> set (elemTiles fourTypesPicked)
   \<and> fst (manageAndValidateSelection 1 fourTypesPicked) = Some Right
   \<and> (\<exists>a2. swapUserSelectedTiles (snd (manageAndValidateSelection 1 fourTypesPicked)) = Inr a2
         \<and> calculateMatchByUserSelection a2 = Some (Inr None)
         \<and> tileClickHandler 1 fourTypesPicked = Some (Inr (handleUserBadSelection a2))
         \<and> pendingBadSwapTimeouts (handleUserBadSelection a2)
              = Suc (pendingBadSwapTimeouts fourTypesPicked))"
proof -
  let ?a = fourTypesPicked
  let ?a1 = "snd (manageAndValidateSelection 1 ?a)"
  have tn: "elemTargetTile ?a = None" by code_simp
  have wf: "wellFormed ?a" by code_simp
  have mc: "1 \<in> set (elemTiles ?a)" by code_simp
  have pk: "elemPickedTile ?a = Some 0" by code_simp
  have mp: "0 \<in> set (elemTiles ?a)" by code_simp
  have f: "fst (manageAndValidateSelection 1 ?a) = Some Right" by code_simp
  then have m: "manageAndValidateSelection 1 ?a = (Some Right, ?a1)" by (simp add: prod_eq_iff)
  have none: "case swapUserSelectedTiles ?a1 of
                Inl ea \<Rightarrow> False
              | Inr a2 \<Rightarrow> calculateMatchByUserSelection a2 = Some (Inr None)"
    by code_simp
  note th = swap_unset_throws_no_combo_reverts[of ?a 1 Right ?a1]
  from th[THEN conjunct1] tn
  have e: "swapUserSelectedTiles ?a = Inl (DeveloperError, ?a)" by blast
  have hyp: "wellFormed ?a \<and> 1 \<in> set (elemTiles ?a)
        \<and> (\<forall>p. elemPickedTile ?a = Some p \<longrightarrow> p \<in> set (elemTiles ?a))
        \<and> manageAndValidateSelection 1 ?a = (Some Right, ?a1)"
    using wf mc pk mp m by simp
  from th[THEN conjunct2, rule_format, OF hyp] obtain a2 combo where
    sw: "swapUserSelectedTiles ?a1 = Inr a2"
    and calc: "calculateMatchByUserSelection a2 = Some (Inr combo)"
    and neg: "combo = None \<longrightarrow>
                  tileClickHandler 1 ?a = Some (Inr (handleUserBadSelection a2))
                  \<and> pendingBadSwapTimeouts (handleUserBadSelection a2)
                      = Suc (pendingBadSwapTimeouts ?a)"
    by blast
  from none sw calc have "combo = None" by simp
  with sw calc neg have "\<exists>a2. swapUserSelectedTiles ?a1 = Inr a2
         \<and> calculateMatchByUserSelection a2 = Some (Inr None)
         \<and> tileClickHandler 1 ?a = Some (Inr (handleUserBadSelection a2))
         \<and> pendingBadSwapTimeouts (handleUserBadSelection a2) = Suc (pendingBadSwapTimeouts ?a)"
    by blast
  with tn e wf mc pk mp f show ?thesis by blast
qed

section \<open>Where the code departs from the claims\<close>

text \<open>
  C2, at the input where the code fails it: on \<open>lShapeBoard\<close> the clicks on the tiles at
  the indices 3 and 4 lead, after the swap, to the arena \<open>lShapeSwapped\<close>. Around the
  picked tile \<open>#detectMatchXY\<close> finds a vertical axis of three tiles and a horizontal axis
  of only two, and keeps both. The combo of the axes that are not \<open>null\<close> holds the tiles
  at the indices 1, 4, 5 and 7; the tile at index 5 lies in no run of three visible tiles
  of one type, and the click sequence hides it with the others.
\<close>

theorem short_axis_in_combo:
  "map_option (\<lambda>a. map_sum fst selectionView (swapUserSelectedTiles (snd (manageAndValidateSelection 4 a))))
      (runEvents [Click 3] lShapeBoard) = Some (Inr (selectionView lShapeSwapped))
   \<and> detectMatchXY lShapeSwapped 3
      = Some (Inr (Some \<lparr>alongX = Some [3, 5], alongY = Some [1, 3, 7]\<rparr>))
   \<and> calculateMatchByUserSelection lShapeSwapped
      = Some (Inr (Some \<lparr>domSortedTiles = [1, 3, 5, 7]\<rparr>))
   \<and> map (indexOf (elemTiles lShapeSwapped)) [1, 3, 5, 7] = [1, 4, 5, 7]
   \<and> map (inRunOfThree lShapeSwapped) [1, 4, 5, 7] = [True, True, False, True]
   \<and> map_option (\<lambda>a. map (\<lambda>t. isHidden (tileStore a t)) [0, 1, 2, 3, 4, 5, 6, 7, 8])
        (runEvents [Click 3, Click 4] lShapeBoard)
      = Some [False, True, False, True, False, True, False, True, False]"
  by code_simp

text \<open>
  The tile at index 5 is in the combo computed for \<open>lShapeSwapped\<close> and in no run of
  three.
\<close>

theorem short_axis_in_combo_witness:
  "calculateMatchByUserSelection lShapeSwapped = Some (Inr (Some \<lparr>domSortedTiles = [1, 3, 5, 7]\<rparr>))
   \<and> map (indexOf (elemTiles lShapeSwapped)) [1, 3, 5, 7] ! 2 = 5
   \<and> map (inRunOfThree lShapeSwapped) [1, 4, 5, 7] ! 2 = False"
  using short_axis_in_combo by simp

text \<open>
  C4, at the input where the code fails it: on \<open>fourTypes\<close>, two rows of two tiles, the
  tile at index 1 ends the first row and the tile at index 2 starts the second. With
  tile 1 picked, \<open>#isSecondTileOnSide\<close> answers \<open>right\<close> for tile 2; the click on it sets
  it as the target and the two tiles are swapped, although the two indices are no
  neighbours on the grid.
\<close>

theorem row_end_and_row_start_accepted:
  "isSecondTileOnSide (fourTypes\<lparr>elemPickedTile := Some 1\<rparr>) 2 = Some Right
   \<and> map_option selectionView (runEvents [Click 1] fourTypes) = Some ([0, 1, 2, 3], Some 1, None, 0)
   \<and> map_option selectionView (runEvents [Click 1, Click 2] fourTypes)
        = Some ([0, 2, 1, 3], Some 1, Some 2, 1)
   \<and> \<not> gridAdjacent fourTypes 1 2 \<and> \<not> gridAdjacent fourTypes 2 1"
  by code_simp


text \<open>
  C5, at the input where the code fails it: on \<open>nineTypes\<close> the clicks on the tiles 0
  and 1 swap the two tiles, find no combo and schedule the revert. A click on tile 2
  before the timeout expires resets the selection to tile 2 alone. The scheduled
  callback then throws the developer error and the tiles 0 and 1 stay swapped; without
  the click in between, the callback swaps them back and clears the selection.
\<close>

theorem revert_after_click_throws:
  "map_option selectionView (runEvents [Click 0, Click 1] nineTypes)
      = Some ([1, 0, 2, 3, 4, 5, 6, 7, 8], Some 0, Some 1, 1)
   \<and> map_option selectionView (runEvents [Click 0, Click 1, Click 2] nineTypes)
      = Some ([1, 0, 2, 3, 4, 5, 6, 7, 8], Some 2, None, 1)
   \<and> Option.bind (runEvents [Click 0, Click 1, Click 2] nineTypes)
        (\<lambda>a. thrown (dispatch BadSwapTimeout a)) = Some DeveloperError
   \<and> map_option selectionView (runEvents [Click 0, Click 1, Click 2, BadSwapTimeout] nineTypes)
      = Some ([1, 0, 2, 3, 4, 5, 6, 7, 8], Some 2, None, 0)
   \<and> map_option selectionView (runEvents [Click 0, Click 1, BadSwapTimeout] nineTypes)
      = Some ([0, 1, 2, 3, 4, 5, 6, 7, 8], None, None, 0)"
  by code_simp


end
